theory Spec2Isabelle
  imports Main "HOL-Library.Word"
begin

section \<open>Byte buffers and the \<open>struct\<close> module\<close>

text \<open>
  The archive is read into memory as a \<open>bytes\<close>/\<open>bytearray\<close> object: a list of
  8-bit values. Python integers are unbounded, so offsets, counts and unpacked fields
  are natural numbers. \<open>struct.unpack_from\<close> and \<open>struct.pack\<close> raise
  \<open>struct.error\<close> when the buffer is too short or a value does not fit its field;
  \<open>str.encode("ascii")\<close> raises \<open>UnicodeEncodeError\<close> on a code point above 127.
\<close>

type_synonym byte = "8 word"

datatype py_error = StructError | UnicodeEncodeError

text \<open>Little-endian value of a byte string, and the little-endian bytes of a value.\<close>

fun le_val :: "byte list \<Rightarrow> nat" where
  "le_val [] = 0"
| "le_val (b # bs) = unat b + 256 * le_val bs"

fun le_bytes :: "nat \<Rightarrow> nat \<Rightarrow> byte list" where
  "le_bytes 0 v = []"
| "le_bytes (Suc n) v = of_nat (v mod 256) # le_bytes n (v div 256)"

text \<open>\<open>data[i:j]\<close>: Python slices are clipped to the buffer, they never raise.\<close>

definition slice :: "byte list \<Rightarrow> nat \<Rightarrow> nat \<Rightarrow> byte list" where
  "slice data i j = take (j - i) (drop i data)"

text \<open>\<open>struct.unpack_from("<H" or "<I", data, offset)[0]\<close> with \<open>n\<close> the field width.\<close>

definition unpack_from :: "nat \<Rightarrow> byte list \<Rightarrow> nat \<Rightarrow> py_error + nat" where
  "unpack_from n data offset =
     (if offset + n \<le> length data then Inr (le_val (slice data offset (offset + n)))
      else Inl StructError)"

text \<open>
  \<open>struct.unpack_from("<HHHHHIIIHH", data, offset)\<close>: ten fields in 26 bytes, returned
  as a tuple that the callers index from 0.
\<close>

definition unpack_HHHHHIIIHH :: "byte list \<Rightarrow> nat \<Rightarrow> py_error + nat list" where
  "unpack_HHHHHIIIHH data offset =
     (if offset + 26 \<le> length data then
        Inr [le_val (slice data offset (offset + 2)),
             le_val (slice data (offset + 2) (offset + 4)),
             le_val (slice data (offset + 4) (offset + 6)),
             le_val (slice data (offset + 6) (offset + 8)),
             le_val (slice data (offset + 8) (offset + 10)),
             le_val (slice data (offset + 10) (offset + 14)),
             le_val (slice data (offset + 14) (offset + 18)),
             le_val (slice data (offset + 18) (offset + 22)),
             le_val (slice data (offset + 22) (offset + 24)),
             le_val (slice data (offset + 24) (offset + 26))]
      else Inl StructError)"

text \<open>
  \<open>struct.pack("<...", v1, v2, ...)\<close>: the format is given as the list of field widths
  paired with the values; any value outside its field raises.
\<close>

definition struct_pack :: "(nat \<times> nat) list \<Rightarrow> py_error + byte list" where
  "struct_pack fmt_vals =
     (if list_all (\<lambda>(n, v). v < 256 ^ n) fmt_vals
      then Inr (concat (map (\<lambda>(n, v). le_bytes n v) fmt_vals))
      else Inl StructError)"

text \<open>
  \<open>bytes.decode("ascii", errors="replace")\<close> yields one code point per byte, U+FFFD for
  a byte above 127; \<open>str.encode("ascii")\<close> is strict.
\<close>

definition decode_ascii_replace :: "byte list \<Rightarrow> nat list" where
  "decode_ascii_replace bs = map (\<lambda>b. if unat b < 128 then unat b else 0xFFFD) bs"

definition encode_ascii :: "nat list \<Rightarrow> py_error + byte list" where
  "encode_ascii s =
     (if list_all (\<lambda>c. c < 128) s then Inr (map of_nat s) else Inl UnicodeEncodeError)"

text \<open>
  \<open>data.rfind(pat)\<close> for a non-empty pattern: the highest index where \<open>pat\<close>
  occurs, \<open>None\<close> for \<open>-1\<close>. The buffer is walked left to right and the latest
  match is kept.
\<close>

fun rfind_scan :: "byte list \<Rightarrow> byte list \<Rightarrow> nat \<Rightarrow> nat option \<Rightarrow> nat option" where
  "rfind_scan [] pat i found = found"
| "rfind_scan (b # bs) pat i found =
     rfind_scan bs pat (i + 1) (if take (length pat) (b # bs) = pat then Some i else found)"

definition rfind :: "byte list \<Rightarrow> byte list \<Rightarrow> nat option" where
  "rfind data pat = rfind_scan data pat 0 None"

section \<open>The ZIP functions of \<open>FM4_CarAudioTuner.py\<close>\<close>

text \<open>
  The dictionary appended to \<open>local_entries\<close> for each local file header. The key
  \<open>"method"\<close> is the field \<open>method_id\<close> here, \<open>method\<close> being reserved.
\<close>

record local_entry =
  local_header_offset :: nat
  name :: "nat list"
  ver :: nat
  flags :: nat
  method_id :: nat
  modtime :: nat
  moddate :: nat
  crc :: nat
  comp_sz :: nat
  uncomp_sz :: nat
  fn_len :: nat
  extra_len :: nat

text \<open>
  The dictionary built from the unpacked fields of the header at \<open>offset\<close>; the
  name is the slice of at most \<open>fn_len\<close> bytes after the fixed header, decoded.
\<close>

definition make_entry :: "byte list \<Rightarrow> nat \<Rightarrow> nat list \<Rightarrow> local_entry" where
  "make_entry data offset flds =
     \<lparr>local_header_offset = offset,
      name = decode_ascii_replace (slice data (offset + 30) (offset + 30 + flds ! 8)),
      ver = flds ! 0, flags = flds ! 1, method_id = flds ! 2,
      modtime = flds ! 3, moddate = flds ! 4, crc = flds ! 5,
      comp_sz = flds ! 6, uncomp_sz = flds ! 7,
      fn_len = flds ! 8, extra_len = flds ! 9\<rparr>"

text \<open>
  The scanning loop of \<open>rebuild_zip_central_directory\<close>: the state is \<open>offset\<close> and
  \<open>local_entries\<close>; the result is the list and \<open>local_data_end\<close>.
\<close>

function scan_loop :: "byte list \<Rightarrow> nat \<Rightarrow> local_entry list \<Rightarrow> py_error + local_entry list \<times> nat" where
  "scan_loop data offset local_entries =
     (if offset + 30 < length data then
        (case unpack_from 4 data offset of
           Inl err \<Rightarrow> Inl err
         | Inr sig \<Rightarrow>
             if sig = 0x04034B50 then
               (case unpack_HHHHHIIIHH data (offset + 4) of
                  Inl err \<Rightarrow> Inl err
                | Inr flds \<Rightarrow>
                    scan_loop data
                      (offset + 30 + flds ! 8 + flds ! 9 + flds ! 6)
                      (local_entries @ [make_entry data offset flds]))
             else if sig = 0x02014B50 then Inr (local_entries, offset)
             else scan_loop data (offset + 1) local_entries)
      else Inr (local_entries, offset))"
  by pat_completeness auto
termination
  by (relation "measure (\<lambda>(data, offset, local_entries). length data - offset)") auto

text \<open>The central-directory loop: one packed record and the encoded name per entry.\<close>

definition pack_cd_entry :: "local_entry \<Rightarrow> py_error + byte list" where
  "pack_cd_entry e =
     struct_pack [(4, 0x02014B50), (2, ver e), (2, ver e), (2, flags e), (2, method_id e),
                  (2, modtime e), (2, moddate e), (4, crc e), (4, comp_sz e),
                  (4, uncomp_sz e), (2, fn_len e), (2, 0), (2, 0), (2, 0), (2, 0),
                  (4, 0), (4, local_header_offset e)]"

fun cd_loop :: "local_entry list \<Rightarrow> byte list \<Rightarrow> py_error + byte list" where
  "cd_loop [] cd_entries = Inr cd_entries"
| "cd_loop (e # es) cd_entries =
     (case encode_ascii (name e) of
        Inl err \<Rightarrow> Inl err
      | Inr fn_bytes \<Rightarrow>
          (case pack_cd_entry e of
             Inl err \<Rightarrow> Inl err
           | Inr entry \<Rightarrow> cd_loop es (cd_entries @ entry @ fn_bytes)))"

definition pack_eocd :: "nat \<Rightarrow> nat \<Rightarrow> nat \<Rightarrow> py_error + byte list" where
  "pack_eocd n cd_len local_data_end =
     struct_pack [(4, 0x06054B50), (2, 0), (2, 0), (2, n), (2, n), (4, cd_len),
                  (4, local_data_end), (2, 0)]"

text \<open>
  \<open>rebuild_zip_central_directory\<close> on the content of the file: the new content
  written back and the returned number of entries. An exception leaves the file as
  it was, since the write is the last step.
\<close>

definition rebuild_zip_central_directory :: "byte list \<Rightarrow> py_error + byte list \<times> nat" where
  "rebuild_zip_central_directory data =
     (case scan_loop data 0 [] of
        Inl err \<Rightarrow> Inl err
      | Inr (local_entries, local_data_end) \<Rightarrow>
          (case cd_loop local_entries [] of
             Inl err \<Rightarrow> Inl err
           | Inr cd_entries \<Rightarrow>
               (case pack_eocd (length local_entries) (length cd_entries) local_data_end of
                  Inl err \<Rightarrow> Inl err
                | Inr eocd \<Rightarrow>
                    Inr (slice data 0 local_data_end @ cd_entries @ eocd,
                         length local_entries))))"

text \<open>
  The messages of \<open>verify_zip\<close>, with the numbers the f-strings interpolate:
  "No EOCD record found", "CD offset ... beyond file size", "Invalid CD signature at
  ...", "Local headers (...) != CD entries (...)" and "Valid: ... files, CD at ...".
\<close>

datatype message =
    NoEOCD
  | OffsetOutOfBounds nat
  | BadCDSignature nat
  | EntryCountMismatch nat nat
  | Valid nat nat

text \<open>The counting loop of \<open>verify_zip\<close>.\<close>

function count_loop :: "byte list \<Rightarrow> nat \<Rightarrow> nat \<Rightarrow> nat \<Rightarrow> py_error + nat" where
  "count_loop data cd_offset offset local_count =
     (if offset < cd_offset then
        (case unpack_from 4 data offset of
           Inl err \<Rightarrow> Inl err
         | Inr sig \<Rightarrow>
             if sig = 0x04034B50 then
               (case unpack_HHHHHIIIHH data (offset + 4) of
                  Inl err \<Rightarrow> Inl err
                | Inr flds \<Rightarrow>
                    count_loop data cd_offset
                      (offset + 30 + flds ! 8 + flds ! 9 + flds ! 6)
                      (local_count + 1))
             else count_loop data cd_offset (offset + 1) local_count)
      else Inr local_count)"
  by pat_completeness auto
termination
  by (relation "measure (\<lambda>(data, cd_offset, offset, local_count). cd_offset - offset)") auto

definition verify_zip :: "byte list \<Rightarrow> py_error + bool \<times> message" where
  "verify_zip data =
     (case rfind data [0x50, 0x4B, 0x05, 0x06] of
        None \<Rightarrow> Inr (False, NoEOCD)
      | Some eocd_pos \<Rightarrow>
          (case unpack_from 4 data (eocd_pos + 16) of
             Inl err \<Rightarrow> Inl err
           | Inr cd_offset \<Rightarrow>
               if cd_offset \<ge> length data then Inr (False, OffsetOutOfBounds cd_offset)
               else if slice data cd_offset (cd_offset + 4) \<noteq> [0x50, 0x4B, 0x01, 0x02]
               then Inr (False, BadCDSignature cd_offset)
               else
                 (case unpack_from 2 data (eocd_pos + 10) of
                    Inl err \<Rightarrow> Inl err
                  | Inr entry_count \<Rightarrow>
                      (case count_loop data cd_offset 0 0 of
                         Inl err \<Rightarrow> Inl err
                       | Inr local_count \<Rightarrow>
                           if local_count \<noteq> entry_count
                           then Inr (False, EntryCountMismatch local_count entry_count)
                           else Inr (True, Valid entry_count cd_offset)))))"

section \<open>Reference notions used to state the properties\<close>

text \<open>
  The central-directory record of an entry, field by field: the signature, the version
  twice, the copied fields, four zero 16-bit fields, one zero 32-bit field, the offset of
  the local header, and the bytes of the name.
\<close>

definition cd_fixed :: "local_entry \<Rightarrow> byte list" where
  "cd_fixed e =
     [0x50, 0x4B, 0x01, 0x02] @ le_bytes 2 (ver e) @ le_bytes 2 (ver e) @
     le_bytes 2 (flags e) @ le_bytes 2 (method_id e) @ le_bytes 2 (modtime e) @
     le_bytes 2 (moddate e) @ le_bytes 4 (crc e) @ le_bytes 4 (comp_sz e) @
     le_bytes 4 (uncomp_sz e) @ le_bytes 2 (fn_len e) @
     [0, 0] @ [0, 0] @ [0, 0] @ [0, 0] @ [0, 0, 0, 0] @
     le_bytes 4 (local_header_offset e)"

definition cd_record :: "local_entry \<Rightarrow> byte list" where
  "cd_record e = cd_fixed e @ map of_nat (name e)"

text \<open>The 22-byte end-of-central-directory record.\<close>

definition eocd_record :: "nat \<Rightarrow> nat \<Rightarrow> nat \<Rightarrow> byte list" where
  "eocd_record n cd_len cd_offset =
     [0x50, 0x4B, 0x05, 0x06] @ [0, 0] @ [0, 0] @ le_bytes 2 n @ le_bytes 2 n @
     le_bytes 4 cd_len @ le_bytes 4 cd_offset @ [0, 0]"

text \<open>A name that decoded without a replacement character.\<close>

definition ascii_name :: "local_entry \<Rightarrow> bool" where
  "ascii_name e = list_all (\<lambda>c. c < 128) (name e)"

text \<open>
  The region from \<open>offset\<close> to \<open>region_end\<close> is consumed exactly by local file
  headers with their names, extra fields and payloads: each record starts with the
  local signature, its fixed header lies in the buffer, and the records end at
  \<open>region_end\<close>.
\<close>

function fully_parsed :: "byte list \<Rightarrow> nat \<Rightarrow> nat \<Rightarrow> bool" where
  "fully_parsed data offset region_end =
     (if offset < region_end then
        (if offset + 30 \<le> length data \<and>
            le_val (slice data offset (offset + 4)) = 0x04034B50 \<and>
            offset + 30 + le_val (slice data (offset + 26) (offset + 28)) +
              le_val (slice data (offset + 28) (offset + 30)) +
              le_val (slice data (offset + 18) (offset + 22)) \<le> region_end
         then fully_parsed data
                (offset + 30 + le_val (slice data (offset + 26) (offset + 28)) +
                   le_val (slice data (offset + 28) (offset + 30)) +
                   le_val (slice data (offset + 18) (offset + 22)))
                region_end
         else False)
      else offset = region_end)"
  by pat_completeness auto
termination
  by (relation "measure (\<lambda>(data, offset, region_end). region_end - offset)") auto

text \<open>
  The count of step 5 as the specification words it, without the byte-by-byte
  fallback: the first 4-byte value that is not the local signature ends the count.
\<close>

function contiguous_run :: "byte list \<Rightarrow> nat \<Rightarrow> nat \<Rightarrow> nat \<Rightarrow> py_error + nat" where
  "contiguous_run data cd_offset offset local_count =
     (if offset < cd_offset then
        (case unpack_from 4 data offset of
           Inl err \<Rightarrow> Inl err
         | Inr sig \<Rightarrow>
             if sig = 0x04034B50 then
               (case unpack_HHHHHIIIHH data (offset + 4) of
                  Inl err \<Rightarrow> Inl err
                | Inr flds \<Rightarrow>
                    contiguous_run data cd_offset
                      (offset + 30 + flds ! 8 + flds ! 9 + flds ! 6)
                      (local_count + 1))
             else Inr local_count)
      else Inr local_count)"
  by pat_completeness auto
termination
  by (relation "measure (\<lambda>(data, cd_offset, offset, local_count). cd_offset - offset)") auto

text \<open>Names for what the loops read at an offset.\<close>

definition fields_at :: "byte list \<Rightarrow> nat \<Rightarrow> nat list" where
  "fields_at data p =
     [le_val (slice data p (p + 2)), le_val (slice data (p + 2) (p + 4)),
      le_val (slice data (p + 4) (p + 6)), le_val (slice data (p + 6) (p + 8)),
      le_val (slice data (p + 8) (p + 10)), le_val (slice data (p + 10) (p + 14)),
      le_val (slice data (p + 14) (p + 18)), le_val (slice data (p + 18) (p + 22)),
      le_val (slice data (p + 22) (p + 24)), le_val (slice data (p + 24) (p + 26))]"

definition next_offset :: "byte list \<Rightarrow> nat \<Rightarrow> nat" where
  "next_offset data offset =
     offset + 30 + fields_at data (offset + 4) ! 8 + fields_at data (offset + 4) ! 9 +
       fields_at data (offset + 4) ! 6"

definition sig_at :: "byte list \<Rightarrow> nat \<Rightarrow> nat" where
  "sig_at data offset = le_val (slice data offset (offset + 4))"

text \<open>What the scanner guarantees for each entry it appends.\<close>

definition emitted_from :: "byte list \<Rightarrow> nat \<Rightarrow> nat \<Rightarrow> local_entry \<Rightarrow> bool" where
  "emitted_from data lo hi e \<longleftrightarrow>
     lo \<le> local_header_offset e \<and>
     local_header_offset e + 30 < length data \<and>
     sig_at data (local_header_offset e) = 0x04034B50 \<and>
     e = make_entry data (local_header_offset e) (fields_at data (local_header_offset e + 4)) \<and>
     next_offset data (local_header_offset e) \<le> hi"

text \<open>The fields that \<open>struct.pack\<close> must fit into the central-directory record.\<close>

definition fits_cd :: "local_entry \<Rightarrow> bool" where
  "fits_cd e \<longleftrightarrow>
     ver e < 65536 \<and> flags e < 65536 \<and> method_id e < 65536 \<and> modtime e < 65536 \<and>
     moddate e < 65536 \<and> crc e < 4294967296 \<and> comp_sz e < 4294967296 \<and>
     uncomp_sz e < 4294967296 \<and> fn_len e < 65536 \<and> local_header_offset e < 4294967296"

text \<open>
  A test buffer: one stray byte, a local header with empty name and payload, a
  central-directory signature, and an end record declaring one entry at offset 31.
\<close>

definition garbage_then_header :: "byte list" where
  "garbage_then_header =
     [0,
      0x50, 0x4B, 0x03, 0x04, 0, 0, 0, 0, 0, 0, 0, 0, 0, 0, 0, 0, 0, 0, 0, 0, 0, 0,
      0, 0, 0, 0, 0, 0, 0, 0,
      0x50, 0x4B, 0x01, 0x02,
      0x50, 0x4B, 0x05, 0x06, 0, 0, 0, 0, 1, 0, 1, 0, 4, 0, 0, 0, 31, 0, 0, 0, 0, 0]"

text \<open>
  A test buffer: one local header declaring a 5-byte name and a 100-byte payload,
  followed by a single byte; and the dictionary the scanner builds from it.
\<close>

definition truncated_entry :: "byte list" where
  "truncated_entry =
     [0x50, 0x4B, 0x03, 0x04, 20, 0, 0, 0, 0, 0, 0, 0, 0, 0, 0, 0, 0, 0,
      100, 0, 0, 0, 100, 0, 0, 0, 5, 0, 0, 0, 0x61]"

definition truncated_entry_dict :: local_entry where
  "truncated_entry_dict =
     \<lparr>local_header_offset = 0, name = [0x61], ver = 20, flags = 0, method_id = 0,
      modtime = 0, moddate = 0, crc = 0, comp_sz = 100, uncomp_sz = 100,
      fn_len = 5, extra_len = 0\<rparr>"

text \<open>
  A local file record as the format lays it out, without extra field: signature, seven
  copied fields, the payload length as compressed size, the name length, then the name
  and the payload.
\<close>

definition minimal_local_entry ::
  "nat \<Rightarrow> nat \<Rightarrow> nat \<Rightarrow> nat \<Rightarrow> nat \<Rightarrow> nat \<Rightarrow> nat \<Rightarrow> byte list \<Rightarrow> byte list \<Rightarrow> byte list" where
  "minimal_local_entry v f m t d c u nm payload =
     [0x50, 0x4B, 0x03, 0x04] @ le_bytes 2 v @ le_bytes 2 f @ le_bytes 2 m @ le_bytes 2 t @
     le_bytes 2 d @ le_bytes 4 c @ le_bytes 4 (length payload) @ le_bytes 4 u @
     le_bytes 2 (length nm) @ le_bytes 2 0 @ nm @ payload"

text \<open>Test buffers: two minimal entries, and one entry whose name is the byte \<open>0xE9\<close>.\<close>

definition two_entry_archive :: "byte list" where
  "two_entry_archive =
     minimal_local_entry 20 0 0 0 0 0 5 [0x61, 0x2E, 0x74, 0x78, 0x74]
       [0x68, 0x65, 0x6C, 0x6C, 0x6F] @
     minimal_local_entry 20 0 0 0 0 0 3 [0x62, 0x2E, 0x74, 0x78, 0x74] [0x61, 0x62, 0x63]"

definition non_ascii_entry :: "byte list" where
  "non_ascii_entry =
     [0x50, 0x4B, 0x03, 0x04, 20, 0, 0, 0, 0, 0, 0, 0, 0, 0, 0, 0, 0, 0,
      0, 0, 0, 0, 0, 0, 0, 0, 1, 0, 0, 0, 0xE9]"

definition non_ascii_entry_dict :: local_entry where
  "non_ascii_entry_dict =
     \<lparr>local_header_offset = 0, name = [0xFFFD], ver = 20, flags = 0, method_id = 0,
      modtime = 0, moddate = 0, crc = 0, comp_sz = 0, uncomp_sz = 0,
      fn_len = 1, extra_len = 0\<rparr>"

text \<open>
  Test buffers: a header declaring a 69-byte payload followed by one byte, what one and
  two repairs make of it, and 31 zero bytes.
\<close>

definition overlong_entry :: "byte list" where
  "overlong_entry =
     [0x50, 0x4B, 0x03, 0x04, 20, 0, 0, 0, 0, 0, 0, 0, 0, 0, 0, 0, 0, 0,
      69, 0, 0, 0, 69, 0, 0, 0, 0, 0, 0, 0, 0]"

definition overlong_entry_dict :: local_entry where
  "overlong_entry_dict =
     \<lparr>local_header_offset = 0, name = [], ver = 20, flags = 0, method_id = 0,
      modtime = 0, moddate = 0, crc = 0, comp_sz = 69, uncomp_sz = 69,
      fn_len = 0, extra_len = 0\<rparr>"

definition overlong_repaired :: "byte list" where
  "overlong_repaired = overlong_entry @ cd_record overlong_entry_dict @ eocd_record 1 46 99"

definition overlong_repaired_twice :: "byte list" where
  "overlong_repaired_twice =
     overlong_repaired @ cd_record overlong_entry_dict @ eocd_record 1 46 99"

definition stray_bytes :: "byte list" where
  "stray_bytes =
     [0, 0, 0, 0, 0, 0, 0, 0, 0, 0, 0, 0, 0, 0, 0, 0, 0, 0, 0, 0, 0, 0, 0, 0, 0, 0, 0, 0,
      0, 0, 0]"

text \<open>
  More test buffers: a 31-byte local record named \<open>a\<close> with no payload and its
  dictionary, and that record followed by 31 bytes of an old central directory.
\<close>

definition tiny_entry :: "byte list" where
  "tiny_entry = minimal_local_entry 20 0 0 0 0 0 0 [0x61] []"

definition tiny_entry_dict :: local_entry where
  "tiny_entry_dict =
     \<lparr>local_header_offset = 0, name = [0x61], ver = 20, flags = 0, method_id = 0,
      modtime = 0, moddate = 0, crc = 0, comp_sz = 0, uncomp_sz = 0,
      fn_len = 1, extra_len = 0\<rparr>"

definition stale_archive :: "byte list" where
  "stale_archive =
     tiny_entry @
     [0x50, 0x4B, 0x01, 0x02, 0xAA, 0xAA, 0xAA, 0xAA, 0xAA, 0xAA, 0xAA, 0xAA, 0xAA, 0xAA,
      0xAA, 0xAA, 0xAA, 0xAA, 0xAA, 0xAA, 0xAA, 0xAA, 0xAA, 0xAA, 0xAA, 0xAA, 0xAA, 0xAA,
      0xAA, 0xAA, 0xAA]"

declare scan_loop.simps [simp del] count_loop.simps [simp del] fully_parsed.simps [simp del]
  contiguous_run.simps [simp del]

section \<open>Bytes and fields\<close>

lemma length_le_bytes [simp]: "length (le_bytes n v) = n"
  by (induction n arbitrary: v) auto

lemma le_val_bound: "le_val bs < 256 ^ length bs"
proof (induction bs)
  case Nil
  then show ?case by simp
next
  case (Cons b bs)
  have "unat b < 256" using unsigned_less [of b] by simp
  with Cons show ?case by simp
qed

lemma le_val_le_bytes: "v < 256 ^ n \<Longrightarrow> le_val (le_bytes n v) = v"
proof (induction n arbitrary: v)
  case 0
  then show ?case by simp
next
  case (Suc n)
  have "v div 256 < 256 ^ n" using Suc.prems by (simp add: less_mult_imp_div_less mult.commute)
  then have "le_val (le_bytes n (v div 256)) = v div 256" by (rule Suc.IH)
  moreover have "unat (of_nat (v mod 256) :: byte) = v mod 256"
    by (simp add: unat_of_nat take_bit_eq_mod)
  ultimately show ?case by simp
qed

lemma le_bytes_le_val: "le_bytes (length bs) (le_val bs) = bs"
proof (induction bs)
  case Nil
  then show ?case by simp
next
  case (Cons b bs)
  have b: "unat b < 256" using unsigned_less [of b] by simp
  then have "(unat b + 256 * le_val bs) mod 256 = unat b" by simp
  moreover have "(unat b + 256 * le_val bs) div 256 = le_val bs" using b by simp
  ultimately show ?case using Cons by simp
qed

lemma le_val_inj: "length xs = length ys \<Longrightarrow> le_val xs = le_val ys \<Longrightarrow> xs = ys"
  by (metis le_bytes_le_val)

lemma length_slice: "j \<le> length data \<Longrightarrow> length (slice data i j) = j - i"
  by (simp add: slice_def)

lemma slice_eq_take: "take lim a = take lim b \<Longrightarrow> j \<le> lim \<Longrightarrow> slice a i j = slice b i j"
proof -
  assume t: "take lim a = take lim b" and j: "j \<le> lim"
  have "slice a i j = take (j - i) (drop i (take lim a))"
    using j by (simp add: slice_def drop_take min_def)
  also have "\<dots> = take (j - i) (drop i (take lim b))" using t by simp
  also have "\<dots> = slice b i j" using j by (simp add: slice_def drop_take min_def)
  finally show ?thesis .
qed

section \<open>The scanning loop\<close>

lemma unpack_from_ok: "offset + n \<le> length data \<Longrightarrow>
    unpack_from n data offset = Inr (le_val (slice data offset (offset + n)))"
  by (simp add: unpack_from_def)

lemma unpack_fields_ok: "p + 26 \<le> length data \<Longrightarrow>
    unpack_HHHHHIIIHH data p = Inr (fields_at data p)"
  by (simp add: unpack_HHHHHIIIHH_def fields_at_def)

lemma next_offset_gt: "offset + 30 \<le> next_offset data offset"
  by (simp add: next_offset_def)

lemma scan_stop: "\<not> offset + 30 < length data \<Longrightarrow> scan_loop data offset acc = Inr (acc, offset)"
  by (subst scan_loop.simps) simp

lemma scan_local: "offset + 30 < length data \<Longrightarrow> sig_at data offset = 0x04034B50 \<Longrightarrow>
    scan_loop data offset acc =
      scan_loop data (next_offset data offset)
        (acc @ [make_entry data offset (fields_at data (offset + 4))])"
  by (subst scan_loop.simps)
     (simp add: unpack_from_ok unpack_fields_ok sig_at_def next_offset_def)

lemma scan_cd: "offset + 30 < length data \<Longrightarrow> sig_at data offset = 0x02014B50 \<Longrightarrow>
    scan_loop data offset acc = Inr (acc, offset)"
  by (subst scan_loop.simps) (simp add: unpack_from_ok sig_at_def)

lemma scan_skip: "offset + 30 < length data \<Longrightarrow> sig_at data offset \<noteq> 0x04034B50 \<Longrightarrow>
    sig_at data offset \<noteq> 0x02014B50 \<Longrightarrow>
    scan_loop data offset acc = scan_loop data (offset + 1) acc"
  by (subst scan_loop.simps) (simp add: unpack_from_ok sig_at_def)

text \<open>Induction along the scanner's walk.\<close>

lemma scan_walk_induct [consumes 0, case_names stop local cd skip]:
  assumes "\<And>offset acc. \<not> offset + 30 < length data \<Longrightarrow> P offset acc"
    and "\<And>offset acc. offset + 30 < length data \<Longrightarrow> sig_at data offset = 0x04034B50 \<Longrightarrow>
           P (next_offset data offset)
             (acc @ [make_entry data offset (fields_at data (offset + 4))]) \<Longrightarrow> P offset acc"
    and "\<And>offset acc. offset + 30 < length data \<Longrightarrow> sig_at data offset = 0x02014B50 \<Longrightarrow>
           P offset acc"
    and "\<And>offset acc. offset + 30 < length data \<Longrightarrow> sig_at data offset \<noteq> 0x04034B50 \<Longrightarrow>
           sig_at data offset \<noteq> 0x02014B50 \<Longrightarrow> P (offset + 1) acc \<Longrightarrow> P offset acc"
  shows "P offset acc"
proof -
  have "\<forall>acc. P offset acc"
  proof (induction "length data - offset" arbitrary: offset rule: less_induct)
    case less
    show ?case
    proof
      fix acc
      show "P offset acc"
      proof (cases "offset + 30 < length data")
        case False
        then show ?thesis by (rule assms(1))
      next
        case guard: True
        show ?thesis
        proof (cases "sig_at data offset = 0x04034B50")
          case True
          have "length data - next_offset data offset < length data - offset"
            using guard next_offset_gt [of offset data] by simp
          then have "P (next_offset data offset)
                 (acc @ [make_entry data offset (fields_at data (offset + 4))])"
            using less by blast
          with guard True show ?thesis by (rule assms(2))
        next
          case nl: False
          show ?thesis
          proof (cases "sig_at data offset = 0x02014B50")
            case True
            with guard show ?thesis by (rule assms(3))
          next
            case False
            have "length data - (offset + 1) < length data - offset" using guard by simp
            then have "P (offset + 1) acc" using less by blast
            with guard nl False show ?thesis by (rule assms(4))
          qed
        qed
      qed
    qed
  qed
  then show ?thesis by blast
qed

lemma scan_total: "\<exists>es e. scan_loop data offset acc = Inr (es, e)"
proof (induction offset acc rule: scan_walk_induct [where data = data])
  case (stop offset acc) then show ?case by (simp add: scan_stop)
next
  case (local offset acc) then show ?case by (simp add: scan_local)
next
  case (cd offset acc) then show ?case by (simp add: scan_cd)
next
  case (skip offset acc) then show ?case by (simp add: scan_skip)
qed

lemma emitted_from_mono: "emitted_from data lo hi e \<Longrightarrow> lo' \<le> lo \<Longrightarrow> emitted_from data lo' hi e"
  by (auto simp: emitted_from_def)

lemma scan_result:
  "scan_loop data offset acc = Inr (es, e) \<Longrightarrow>
     offset \<le> e \<and> (\<exists>new. es = acc @ new \<and> (\<forall>x \<in> set new. emitted_from data offset e x))"
proof (induction offset acc rule: scan_walk_induct [where data = data])
  case (stop offset acc) then show ?case by (simp add: scan_stop)
next
  case (local offset acc)
  let ?x = "make_entry data offset (fields_at data (offset + 4))"
  from local have r: "scan_loop data (next_offset data offset) (acc @ [?x]) = Inr (es, e)"
    by (simp add: scan_local)
  from local.IH [OF r] obtain new where
    le: "next_offset data offset \<le> e" and es: "es = (acc @ [?x]) @ new"
    and new: "\<forall>x \<in> set new. emitted_from data (next_offset data offset) e x"
    by blast
  have off: "offset \<le> next_offset data offset" using next_offset_gt [of offset data] by simp
  have "emitted_from data offset e ?x"
    using local(1,2) le by (simp add: emitted_from_def make_entry_def)
  moreover have "\<forall>x \<in> set new. emitted_from data offset e x"
    using new off by (blast intro: emitted_from_mono)
  ultimately have "\<forall>x \<in> set (?x # new). emitted_from data offset e x" by simp
  moreover have "es = acc @ (?x # new)" using es by simp
  ultimately show ?case using le off by (metis le_trans)
next
  case (cd offset acc) then show ?case by (simp add: scan_cd)
next
  case (skip offset acc)
  from skip have r: "scan_loop data (offset + 1) acc = Inr (es, e)" by (simp add: scan_skip)
  from skip.IH [OF r] obtain new where "offset + 1 \<le> e" "es = acc @ new"
    "\<forall>x \<in> set new. emitted_from data (offset + 1) e x" by blast
  then show ?case by (auto intro: emitted_from_mono [where lo = "offset + 1"])
qed

section \<open>The central directory and the end record\<close>

lemma le_bytes_2: "le_bytes 2 v = [of_nat (v mod 256), of_nat (v div 256 mod 256)]"
proof -
  have "(2::nat) = Suc (Suc 0)" by simp
  then show ?thesis by (simp only: le_bytes.simps)
qed

lemma le_bytes_4: "le_bytes 4 v = [of_nat (v mod 256), of_nat (v div 256 mod 256),
    of_nat (v div 256 div 256 mod 256), of_nat (v div 256 div 256 div 256 mod 256)]"
proof -
  have "(4::nat) = Suc (Suc (Suc (Suc 0)))" by simp
  then show ?thesis by (simp only: le_bytes.simps)
qed

lemma le_val_slice_bound: "j \<le> i + n \<Longrightarrow> le_val (slice data i j) < 256 ^ n"
proof -
  assume "j \<le> i + n"
  then have "length (slice data i j) \<le> n" by (simp add: slice_def)
  then have "(256::nat) ^ length (slice data i j) \<le> 256 ^ n"
    by (simp add: power_increasing)
  with le_val_bound [of "slice data i j"] show ?thesis by linarith
qed

lemma pack_cd_entry_ok: "fits_cd e \<Longrightarrow> pack_cd_entry e = Inr (cd_fixed e)"
  by (simp add: pack_cd_entry_def struct_pack_def fits_cd_def cd_fixed_def le_bytes_2 le_bytes_4)

lemma length_cd_fixed [simp]: "length (cd_fixed e) = 46"
  by (simp add: cd_fixed_def)

lemma encode_ascii_ok: "ascii_name e \<Longrightarrow> encode_ascii (name e) = Inr (map of_nat (name e))"
  by (simp add: ascii_name_def encode_ascii_def)

lemma cd_loop_ok:
  "\<forall>e \<in> set es. ascii_name e \<and> fits_cd e \<Longrightarrow>
     cd_loop es acc = Inr (acc @ concat (map cd_record es))"
  by (induction es arbitrary: acc)
     (simp_all add: encode_ascii_ok pack_cd_entry_ok cd_record_def)

lemma cd_loop_non_ascii:
  "\<exists>e \<in> set es. \<not> ascii_name e \<Longrightarrow> \<forall>e \<in> set es. fits_cd e \<Longrightarrow>
     cd_loop es acc = Inl UnicodeEncodeError"
proof (induction es arbitrary: acc)
  case Nil
  then show ?case by simp
next
  case (Cons e es)
  show ?case
  proof (cases "ascii_name e")
    case True
    with Cons.prems have "\<exists>x \<in> set es. \<not> ascii_name x" by auto
    moreover from Cons.prems have "\<forall>x \<in> set es. fits_cd x" by simp
    ultimately have "\<And>acc. cd_loop es acc = Inl UnicodeEncodeError" by (rule Cons.IH)
    with True Cons.prems show ?thesis by (simp add: encode_ascii_ok pack_cd_entry_ok)
  next
    case False
    then show ?thesis by (simp add: ascii_name_def encode_ascii_def)
  qed
qed

lemma pack_eocd_ok: "n < 65536 \<Longrightarrow> cd_len < 4294967296 \<Longrightarrow> e < 4294967296 \<Longrightarrow>
    pack_eocd n cd_len e = Inr (eocd_record n cd_len e)"
  by (simp add: pack_eocd_def struct_pack_def eocd_record_def le_bytes_2 le_bytes_4)

lemma length_eocd_record [simp]: "length (eocd_record n s e) = 22"
  by (simp add: eocd_record_def)

lemma make_entry_sel [simp]:
  "local_header_offset (make_entry data offset f) = offset"
  "name (make_entry data offset f) = decode_ascii_replace (slice data (offset + 30) (offset + 30 + f ! 8))"
  "ver (make_entry data offset f) = f ! 0"
  "flags (make_entry data offset f) = f ! 1"
  "method_id (make_entry data offset f) = f ! 2"
  "modtime (make_entry data offset f) = f ! 3"
  "moddate (make_entry data offset f) = f ! 4"
  "crc (make_entry data offset f) = f ! 5"
  "comp_sz (make_entry data offset f) = f ! 6"
  "uncomp_sz (make_entry data offset f) = f ! 7"
  "fn_len (make_entry data offset f) = f ! 8"
  "extra_len (make_entry data offset f) = f ! 9"
  by (simp_all add: make_entry_def)

lemma fields_at_bound:
  "fields_at data p ! 0 < 65536" "fields_at data p ! 1 < 65536" "fields_at data p ! 2 < 65536"
  "fields_at data p ! 3 < 65536" "fields_at data p ! 4 < 65536"
  "fields_at data p ! 5 < 4294967296" "fields_at data p ! 6 < 4294967296"
  "fields_at data p ! 7 < 4294967296" "fields_at data p ! 8 < 65536"
  "fields_at data p ! 9 < 65536"
  using le_val_slice_bound [of "p + 2" p 2 data] le_val_slice_bound [of "p + 4" "p + 2" 2 data]
    le_val_slice_bound [of "p + 6" "p + 4" 2 data] le_val_slice_bound [of "p + 8" "p + 6" 2 data]
    le_val_slice_bound [of "p + 10" "p + 8" 2 data] le_val_slice_bound [of "p + 14" "p + 10" 4 data]
    le_val_slice_bound [of "p + 18" "p + 14" 4 data] le_val_slice_bound [of "p + 22" "p + 18" 4 data]
    le_val_slice_bound [of "p + 24" "p + 22" 2 data] le_val_slice_bound [of "p + 26" "p + 24" 2 data]
  by (simp_all add: fields_at_def)

lemma emitted_fits: "emitted_from data lo hi e \<Longrightarrow> hi < 4294967296 \<Longrightarrow> fits_cd e"
proof -
  assume em: "emitted_from data lo hi e" and hi: "hi < 4294967296"
  let ?o = "local_header_offset e"
  from em have e: "e = make_entry data ?o (fields_at data (?o + 4))"
    and n: "next_offset data ?o \<le> hi" by (simp_all add: emitted_from_def)
  have "?o < 4294967296" using n hi next_offset_gt [of ?o data] by linarith
  moreover have "fits_cd (make_entry data ?o (fields_at data (?o + 4))) \<longleftrightarrow> ?o < 4294967296"
    using fields_at_bound(2) [of data "?o + 4"] by (simp add: fits_cd_def fields_at_bound)
  ultimately show ?thesis using e by simp
qed

lemma rebuild_ok:
  assumes scan: "scan_loop data 0 [] = Inr (es, e)"
    and ascii: "\<forall>x \<in> set es. ascii_name x"
    and n: "length es < 65536"
    and cd: "length (concat (map cd_record es)) < 4294967296"
    and e: "e < 4294967296"
  shows "rebuild_zip_central_directory data =
           Inr (take e data @ concat (map cd_record es) @
                  eocd_record (length es) (length (concat (map cd_record es))) e,
                length es)"
proof -
  from scan_result [OF scan] have "\<forall>x \<in> set es. emitted_from data 0 e x" by simp
  with e have "\<forall>x \<in> set es. fits_cd x" by (blast intro: emitted_fits)
  with ascii have "cd_loop es [] = Inr (concat (map cd_record es))"
    by (simp add: cd_loop_ok)
  then show ?thesis
    using scan n cd e by (simp add: rebuild_zip_central_directory_def pack_eocd_ok slice_def)
qed

section \<open>The verifier\<close>

lemma rfind_scan_shift:
  "rfind_scan xs pat j b =
     (case rfind_scan xs pat 0 None of Some k \<Rightarrow> Some (j + k) | None \<Rightarrow> b)"
proof (induction xs arbitrary: j b)
  case Nil
  then show ?case by simp
next
  case (Cons x xs)
  let ?m = "take (length pat) (x # xs) = pat"
  have l: "rfind_scan (x # xs) pat j b =
      (case rfind_scan xs pat 0 None of Some k \<Rightarrow> Some (j + 1 + k)
       | None \<Rightarrow> (if ?m then Some j else b))"
    using Cons.IH [of "j + 1" "if ?m then Some j else b"] by simp
  have r: "rfind_scan (x # xs) pat 0 None =
      (case rfind_scan xs pat 0 None of Some k \<Rightarrow> Some (0 + 1 + k)
       | None \<Rightarrow> (if ?m then Some 0 else None))"
    using Cons.IH [of "0 + 1" "if ?m then Some 0 else None"] by simp
  show ?case unfolding l r by (cases "rfind_scan xs pat 0 None") simp_all
qed

lemma rfind_scan_append:
  "\<exists>b'. rfind_scan (P @ E) pat j b = rfind_scan E pat (j + length P) b'"
proof (induction P arbitrary: j b)
  case Nil
  show ?case by (rule exI [of _ b]) simp
next
  case (Cons x P)
  from Cons.IH [of "j + 1"] show ?case by simp
qed

lemma rfind_append:
  assumes "rfind E pat = Some k"
  shows "rfind (P @ E) pat = Some (length P + k)"
proof -
  obtain b' where "rfind_scan (P @ E) pat 0 None = rfind_scan E pat (0 + length P) b'"
    using rfind_scan_append by blast
  also have "\<dots> = Some (0 + length P + k)"
    using assms by (subst rfind_scan_shift) (simp add: rfind_def)
  finally show ?thesis by (simp add: rfind_def)
qed

lemma slice_append_right:
  "slice (X @ Y) (length X + i) (length X + j) = slice Y i j"
  by (simp add: slice_def)

lemma count_stop: "\<not> offset < cd \<Longrightarrow> count_loop data cd offset c = Inr c"
  by (subst count_loop.simps) simp

lemma count_local: "offset < cd \<Longrightarrow> offset + 30 \<le> length data \<Longrightarrow>
    sig_at data offset = 0x04034B50 \<Longrightarrow>
    count_loop data cd offset c = count_loop data cd (next_offset data offset) (c + 1)"
  by (subst count_loop.simps)
     (simp add: unpack_from_ok unpack_fields_ok sig_at_def next_offset_def)

lemma count_skip: "offset < cd \<Longrightarrow> offset + 4 \<le> length data \<Longrightarrow>
    sig_at data offset \<noteq> 0x04034B50 \<Longrightarrow>
    count_loop data cd offset c = count_loop data cd (offset + 1) c"
  by (subst count_loop.simps) (simp add: unpack_from_ok sig_at_def)

lemma next_offset_alt:
  "next_offset data offset =
     offset + 30 + le_val (slice data (offset + 26) (offset + 28)) +
       le_val (slice data (offset + 28) (offset + 30)) +
       le_val (slice data (offset + 18) (offset + 22))"
  by (simp add: next_offset_def fields_at_def add.assoc)

lemma fully_parsed_step:
  assumes "offset < region_end" and "fully_parsed data offset region_end"
  shows "offset + 30 \<le> length data" and "sig_at data offset = 0x04034B50"
    and "next_offset data offset \<le> region_end"
    and "fully_parsed data (next_offset data offset) region_end"
proof -
  from assms have c: "offset + 30 \<le> length data \<and>
            le_val (slice data offset (offset + 4)) = 0x04034B50 \<and>
            next_offset data offset \<le> region_end"
    by (subst (asm) fully_parsed.simps) (simp add: next_offset_alt split: if_splits)
  then show "offset + 30 \<le> length data" and "sig_at data offset = 0x04034B50"
    and "next_offset data offset \<le> region_end" by (simp_all add: sig_at_def)
  from assms c show "fully_parsed data (next_offset data offset) region_end"
    by (subst (asm) fully_parsed.simps) (simp add: next_offset_alt split: if_splits)
qed

lemma sig_at_eq: "take lim a = take lim b \<Longrightarrow> offset + 4 \<le> lim \<Longrightarrow> sig_at a offset = sig_at b offset"
  using slice_eq_take [of lim a b "offset + 4" offset] by (simp add: sig_at_def)

lemma fields_at_eq:
  assumes "take lim a = take lim b" and "p + 26 \<le> lim"
  shows "fields_at a p = fields_at b p"
proof -
  have "\<And>i j. j \<le> p + 26 \<Longrightarrow> slice a i j = slice b i j"
    using assms slice_eq_take [of lim a b] by simp
  then show ?thesis by (simp add: fields_at_def)
qed

lemma next_offset_eq: "take lim a = take lim b \<Longrightarrow> offset + 30 \<le> lim \<Longrightarrow>
    next_offset a offset = next_offset b offset"
  using fields_at_eq [of lim a b "offset + 4"] by (simp add: next_offset_def)

lemma count_fully_parsed:
  assumes out: "take e out = take e data" and len: "e \<le> length out"
  shows "scan_loop data offset acc = Inr (es, e) \<Longrightarrow> fully_parsed data offset e \<Longrightarrow>
     (\<forall>c. count_loop out e offset c = Inr (c + (length es - length acc)))"
proof (induction offset acc rule: scan_walk_induct [where data = data])
  case (stop offset acc)
  then show ?case by (simp add: scan_stop count_stop)
next
  case (local offset acc)
  let ?x = "make_entry data offset (fields_at data (offset + 4))"
  let ?n = "next_offset data offset"
  from local have r: "scan_loop data ?n (acc @ [?x]) = Inr (es, e)" by (simp add: scan_local)
  from scan_result [OF r] have ne: "?n \<le> e" and ex: "\<exists>new. es = (acc @ [?x]) @ new" by auto
  from ne have lt: "offset < e" using next_offset_gt [of offset data] by linarith
  have o30: "offset + 30 \<le> e" using ne next_offset_gt [of offset data] by linarith
  from fully_parsed_step(4) [OF lt local.prems(2)] have fp: "fully_parsed data ?n e" .
  from local.IH [OF r fp] have ih: "\<And>c. count_loop out e ?n c = Inr (c + (length es - length (acc @ [?x])))"
    by blast
  have sig: "sig_at out offset = 0x04034B50"
    using sig_at_eq [OF out, of offset] o30 local(2) by simp
  have nx: "next_offset out offset = ?n" using next_offset_eq [OF out o30] .
  have "\<And>c. count_loop out e offset c = count_loop out e ?n (c + 1)"
    using count_local [of offset e out] lt o30 len sig nx by simp
  then show ?case using ih ex by auto
next
  case (cd offset acc)
  then show ?case by (simp add: scan_cd count_stop)
next
  case (skip offset acc)
  from skip have r: "scan_loop data (offset + 1) acc = Inr (es, e)" by (simp add: scan_skip)
  from scan_result [OF r] have lt: "offset < e" by simp
  from fully_parsed_step(2) [OF lt skip.prems(2)] skip(2) show ?case by simp
qed

text \<open>The fallback of the counting loop only adds to the count.\<close>

lemma count_mono: "count_loop data cd offset c = Inr n \<Longrightarrow> c \<le> n"
proof (induction data cd offset c rule: count_loop.induct)
  case (1 data cd offset c)
  show ?case
  proof (cases "offset < cd")
    case False
    with "1.prems" show ?thesis by (simp add: count_loop.simps)
  next
    case True
    show ?thesis
    proof (cases "unpack_from 4 data offset")
      case (Inl err)
      with True "1.prems" show ?thesis by (subst (asm) count_loop.simps) simp
    next
      case sg: (Inr sig)
      show ?thesis
      proof (cases "sig = 0x04034B50")
        case False
        with True sg "1.prems" have "count_loop data cd (offset + 1) c = Inr n"
          by (subst (asm) count_loop.simps) simp
        with "1.IH"(2) [OF True sg False] show ?thesis by simp
      next
        case lc: True
        show ?thesis
        proof (cases "unpack_HHHHHIIIHH data (offset + 4)")
          case (Inl err)
          with True sg lc "1.prems" show ?thesis by (subst (asm) count_loop.simps) simp
        next
          case (Inr flds)
          with True sg lc "1.prems"
          have "count_loop data cd (offset + 30 + flds ! 8 + flds ! 9 + flds ! 6) (c + 1) = Inr n"
            by (subst (asm) count_loop.simps) simp
          with "1.IH"(1) [OF True sg lc Inr] show ?thesis by simp
        qed
      qed
    qed
  qed
qed

lemma contiguous_run_le_count:
  "count_loop data cd offset c = Inr n \<Longrightarrow>
     \<exists>m. contiguous_run data cd offset c = Inr m \<and> m \<le> n"
proof (induction data cd offset c rule: count_loop.induct)
  case (1 data cd offset c)
  show ?case
  proof (cases "offset < cd")
    case False
    with "1.prems" show ?thesis by (simp add: count_loop.simps contiguous_run.simps)
  next
    case True
    show ?thesis
    proof (cases "unpack_from 4 data offset")
      case (Inl err)
      with True "1.prems" show ?thesis by (subst (asm) count_loop.simps) simp
    next
      case sg: (Inr sig)
      show ?thesis
      proof (cases "sig = 0x04034B50")
        case False
        from count_mono [OF "1.prems"] have "c \<le> n" .
        moreover from True sg False have "contiguous_run data cd offset c = Inr c"
          by (subst contiguous_run.simps) simp
        ultimately show ?thesis by simp
      next
        case lc: True
        show ?thesis
        proof (cases "unpack_HHHHHIIIHH data (offset + 4)")
          case (Inl err)
          with True sg lc "1.prems" show ?thesis by (subst (asm) count_loop.simps) simp
        next
          case (Inr flds)
          with True sg lc "1.prems"
          have "count_loop data cd (offset + 30 + flds ! 8 + flds ! 9 + flds ! 6) (c + 1) = Inr n"
            by (subst (asm) count_loop.simps) simp
          from "1.IH"(1) [OF True sg lc Inr this] obtain m where
            "contiguous_run data cd (offset + 30 + flds ! 8 + flds ! 9 + flds ! 6) (c + 1) = Inr m"
            "m \<le> n" by blast
          moreover from True sg lc Inr have "contiguous_run data cd offset c =
              contiguous_run data cd (offset + 30 + flds ! 8 + flds ! 9 + flds ! 6) (c + 1)"
            by (subst contiguous_run.simps) simp
          ultimately show ?thesis by simp
        qed
      qed
    qed
  qed
qed

section \<open>Verifying a rebuilt archive\<close>

lemma slice_append_left: "j \<le> length X \<Longrightarrow> slice (X @ Y) i j = slice X i j"
  by (simp add: slice_def)

lemma eocd_record_fields:
  "slice (eocd_record n s e) 16 20 = le_bytes 4 e"
  "slice (eocd_record n s e) 10 12 = le_bytes 2 n"
  by (simp_all add: eocd_record_def slice_def le_bytes_2 le_bytes_4)

lemma take4_cd_records: "es \<noteq> [] \<Longrightarrow> take 4 (concat (map cd_record es) @ E) = [0x50, 0x4B, 0x01, 0x02]"
  by (cases es) (simp_all add: cd_record_def cd_fixed_def)

lemma length_cd_records: "es \<noteq> [] \<Longrightarrow> 46 \<le> length (concat (map cd_record es))"
  by (cases es) (simp_all add: cd_record_def)

lemma unpack_from_append_right:
  "i + n \<le> length Y \<Longrightarrow>
     unpack_from n (X @ Y) (length X + i) = Inr (le_val (slice Y i (i + n)))"
  by (simp add: unpack_from_def slice_def)

lemma unpack_eocd_offset:
  "e < 4294967296 \<Longrightarrow> unpack_from 4 (X @ eocd_record n s e) (length X + 16) = Inr e"
  using unpack_from_append_right [of 16 4 "eocd_record n s e" X]
  by (simp add: eocd_record_fields le_val_le_bytes)

lemma unpack_eocd_count:
  "n < 65536 \<Longrightarrow> unpack_from 2 (X @ eocd_record n s e) (length X + 10) = Inr n"
  using unpack_from_append_right [of 10 2 "eocd_record n s e" X]
  by (simp add: eocd_record_fields le_val_le_bytes)

lemma verify_repaired:
  assumes out: "out = P @ CD @ E"
    and CD: "CD = concat (map cd_record es)" and ne: "es \<noteq> []"
    and E: "E = eocd_record (length es) (length CD) (length P)"
    and n: "length es < 65536" and e: "length P < 4294967296"
    and rf: "rfind E [0x50, 0x4B, 0x05, 0x06] = Some 0"
    and cnt: "count_loop out (length P) 0 0 = Inr (length es)"
  shows "verify_zip out = Inr (True, Valid (length es) (length P))"
proof -
  define pos where "pos = length (P @ CD)"
  have o2: "out = (P @ CD) @ E" using out by simp
  have lenE: "length E = 22" using E by simp
  have r: "rfind out [0x50, 0x4B, 0x05, 0x06] = Some pos"
    using rfind_append [OF rf, of "P @ CD"] o2 by (simp add: pos_def)
  have u1: "unpack_from 4 out (pos + 16) = Inr (length P)"
    unfolding o2 E pos_def using e by (rule unpack_eocd_offset)
  have u2: "unpack_from 2 out (pos + 10) = Inr (length es)"
    unfolding o2 E pos_def using n by (rule unpack_eocd_count)
  have lt: "\<not> length out \<le> length P" using out lenE by simp
  have "slice out (length P + 0) (length P + 4) = slice (CD @ E) 0 4"
    unfolding out by (rule slice_append_right)
  then have sg: "slice out (length P) (length P + 4) = [0x50, 0x4B, 0x01, 0x02]"
    using take4_cd_records [OF ne, of E] CD by (simp add: slice_def)
  show ?thesis
    unfolding verify_zip_def using r u1 u2 lt sg cnt by simp
qed

lemma repair_then_verify:
  assumes scan: "scan_loop data 0 [] = Inr (es, e)"
    and fp: "fully_parsed data 0 e" and le: "e \<le> length data"
    and ne: "es \<noteq> []"
    and ascii: "\<forall>x \<in> set es. ascii_name x"
    and n: "length es < 65536"
    and cd: "length (concat (map cd_record es)) < 4294967296"
    and e: "e < 4294967296"
    and rf: "rfind (eocd_record (length es) (length (concat (map cd_record es))) e)
               [0x50, 0x4B, 0x05, 0x06] = Some 0"
  shows "rebuild_zip_central_directory data =
           Inr (take e data @ concat (map cd_record es) @
                  eocd_record (length es) (length (concat (map cd_record es))) e,
                length es)"
    and "verify_zip (take e data @ concat (map cd_record es) @
                  eocd_record (length es) (length (concat (map cd_record es))) e) =
           Inr (True, Valid (length es) e)"
proof -
  let ?CD = "concat (map cd_record es)"
  let ?E = "eocd_record (length es) (length ?CD) e"
  let ?out = "take e data @ ?CD @ ?E"
  show "rebuild_zip_central_directory data = Inr (?out, length es)"
    using scan ascii n cd e by (rule rebuild_ok)
  have lp: "length (take e data) = e" using le by simp
  have t: "take e ?out = take e data" using lp by simp
  have "e \<le> length ?out" using lp by simp
  from count_fully_parsed [OF t this scan fp]
  have "count_loop ?out e 0 0 = Inr (length es)" by simp
  then have cnt: "count_loop ?out (length (take e data)) 0 0 = Inr (length es)" using lp by simp
  have "verify_zip ?out = Inr (True, Valid (length es) (length (take e data)))"
    by (rule verify_repaired [where P = "take e data" and CD = ?CD and E = ?E and es = es])
       (use ne n e rf cnt lp in simp_all)
  then show "verify_zip ?out = Inr (True, Valid (length es) e)" using lp by simp
qed

section \<open>Two minimal entries\<close>

lemma repaired_eocd:
  assumes "rfind (eocd_record n s e) [0x50, 0x4B, 0x05, 0x06] = Some 0"
    and "n < 65536" and "e < 4294967296"
  shows "rfind (X @ eocd_record n s e) [0x50, 0x4B, 0x05, 0x06] = Some (length X)"
    and "unpack_from 2 (X @ eocd_record n s e) (length X + 10) = Inr n"
    and "unpack_from 4 (X @ eocd_record n s e) (length X + 16) = Inr e"
  using rfind_append [OF assms(1), of X] assms(2,3)
  by (simp_all add: unpack_eocd_count unpack_eocd_offset)

lemma fully_parsed_end: "fully_parsed data e e"
  by (subst fully_parsed.simps) simp

lemma fully_parsed_intro:
  assumes "offset < region_end" and "offset + 30 \<le> length data"
    and "sig_at data offset = 0x04034B50" and "next_offset data offset \<le> region_end"
    and "fully_parsed data (next_offset data offset) region_end"
  shows "fully_parsed data offset region_end"
proof -
  have "fully_parsed data offset region_end =
          fully_parsed data (next_offset data offset) region_end"
    using assms(1-4) by (subst fully_parsed.simps, fold next_offset_alt) (simp add: sig_at_def)
  with assms(5) show ?thesis by simp
qed

lemma two_minimal_entries:
  fixes data :: "byte list"
  defines "a \<equiv> [0x61, 0x2E, 0x74, 0x78, 0x74]" and "b \<equiv> [0x62, 0x2E, 0x74, 0x78, 0x74]"
  assumes data: "data = minimal_local_entry v1 f1 m1 t1 d1 c1 u1 a [p1, p2, p3, p4, p5] @
                  minimal_local_entry v2 f2 m2 t2 d2 c2 u2 b [q1, q2, q3]"
  shows "length data = 78"
    and "\<exists>es. scan_loop data 0 [] = Inr (es, 78) \<and> length es = 2 \<and>
           (\<forall>x \<in> set es. ascii_name x) \<and> length (concat (map cd_record es)) = 102"
    and "fully_parsed data 0 78"
proof -
  have d: "data = [0x50, 0x4B, 0x03, 0x04] @ le_bytes 2 v1 @ le_bytes 2 f1 @ le_bytes 2 m1 @
      le_bytes 2 t1 @ le_bytes 2 d1 @ le_bytes 4 c1 @ [5, 0, 0, 0] @ le_bytes 4 u1 @
      [5, 0, 0, 0] @ a @ [p1, p2, p3, p4, p5] @
      [0x50, 0x4B, 0x03, 0x04] @ le_bytes 2 v2 @ le_bytes 2 f2 @ le_bytes 2 m2 @
      le_bytes 2 t2 @ le_bytes 2 d2 @ le_bytes 4 c2 @ [3, 0, 0, 0] @ le_bytes 4 u2 @
      [5, 0, 0, 0] @ b @ [q1, q2, q3]"
    unfolding data minimal_local_entry_def by (simp add: le_bytes_2 le_bytes_4 a_def b_def)
  show len: "length data = 78" unfolding d by (simp add: a_def b_def)
  have s0: "sig_at data 0 = 0x04034B50" unfolding d by (simp add: sig_at_def slice_def)
  have n0: "next_offset data 0 = 40"
    unfolding d by (simp add: next_offset_def fields_at_def slice_def le_bytes_2 le_bytes_4)
  have s1: "sig_at data 40 = 0x04034B50"
    unfolding d by (simp add: sig_at_def slice_def le_bytes_2 le_bytes_4 a_def)
  have n1: "next_offset data 40 = 78"
    unfolding d by (simp add: next_offset_def fields_at_def slice_def le_bytes_2 le_bytes_4 a_def)
  let ?e0 = "make_entry data 0 (fields_at data (0 + 4))"
  let ?e1 = "make_entry data 40 (fields_at data (40 + 4))"
  have "scan_loop data 0 [] = scan_loop data 40 ([] @ [?e0])"
    using scan_local [of 0 data "[]"] s0 n0 len by simp
  also have "\<dots> = scan_loop data 78 (([] @ [?e0]) @ [?e1])"
    using scan_local [of 40 data "[] @ [?e0]"] s1 n1 len by simp
  also have "\<dots> = Inr (([] @ [?e0]) @ [?e1], 78)"
    using scan_stop [of 78 data] len by simp
  finally have scan: "scan_loop data 0 [] = Inr ([?e0, ?e1], 78)" by simp
  have nm0: "name ?e0 = [0x61, 0x2E, 0x74, 0x78, 0x74]"
    unfolding d
    by (simp add: fields_at_def slice_def le_bytes_2 le_bytes_4 a_def decode_ascii_replace_def)
  have nm1: "name ?e1 = [0x62, 0x2E, 0x74, 0x78, 0x74]"
    unfolding d
    by (simp add: fields_at_def slice_def le_bytes_2 le_bytes_4 a_def b_def decode_ascii_replace_def)
  have "ascii_name ?e0" "ascii_name ?e1" using nm0 nm1 by (simp_all add: ascii_name_def)
  moreover have "length (cd_record ?e0) = 51" "length (cd_record ?e1) = 51"
    using nm0 nm1 by (simp_all add: cd_record_def)
  ultimately show "\<exists>es. scan_loop data 0 [] = Inr (es, 78) \<and> length es = 2 \<and>
           (\<forall>x \<in> set es. ascii_name x) \<and> length (concat (map cd_record es)) = 102"
    using scan by simp
  have fp0: "fully_parsed data 40 78"
    using fully_parsed_intro [of 40 78 data] fully_parsed_end [of data 78] n1 s1 len by simp
  show "fully_parsed data 0 78"
    using fully_parsed_intro [of 0 78 data] fp0 n0 s0 len by simp
qed

lemma rfind_eocd_2_102_78:
  "rfind (eocd_record 2 102 78) [0x50, 0x4B, 0x05, 0x06] = Some 0"
  by (simp add: eocd_record_def rfind_def le_bytes_2 le_bytes_4)

section \<open>Concrete runs\<close>

lemmas run_defs =
  rebuild_zip_central_directory_def verify_zip_def unpack_from_def unpack_HHHHHIIIHH_def
  slice_def decode_ascii_replace_def encode_ascii_def struct_pack_def pack_cd_entry_def
  pack_eocd_def rfind_def make_entry_def le_bytes_2 le_bytes_4
  scan_loop.simps count_loop.simps contiguous_run.simps



lemma scan_non_ascii_entry:
  "scan_loop non_ascii_entry 0 [] = Inr ([non_ascii_entry_dict], 31)"
  by (simp add: run_defs non_ascii_entry_def non_ascii_entry_dict_def)

lemma fully_parsed_non_ascii_entry: "fully_parsed non_ascii_entry 0 31"
  by (simp add: fully_parsed.simps non_ascii_entry_def slice_def)

lemma rebuild_non_ascii_entry:
  "rebuild_zip_central_directory non_ascii_entry = Inl UnicodeEncodeError"
  by (simp add: rebuild_zip_central_directory_def scan_non_ascii_entry)
     (simp add: non_ascii_entry_dict_def encode_ascii_def)

lemma rebuild_empty: "rebuild_zip_central_directory [] = Inr (eocd_record 0 0 0, 0)"
  by (simp add: run_defs eocd_record_def)

lemma verify_empty_eocd: "verify_zip (eocd_record 0 0 0) = Inr (False, BadCDSignature 0)"
  by (simp add: run_defs eocd_record_def)

lemma two_entry_archive_facts:
  "length two_entry_archive = 78"
  "\<exists>es. scan_loop two_entry_archive 0 [] = Inr (es, 78) \<and> length es = 2 \<and>
           (\<forall>x \<in> set es. ascii_name x) \<and> length (concat (map cd_record es)) = 102"
  "fully_parsed two_entry_archive 0 78"
  using two_minimal_entries [OF two_entry_archive_def] by blast+

text \<open>Encoding a name that decoded without replacement gives the bytes back.\<close>

lemma encode_decode_ascii:
  "list_all (\<lambda>c. c < 128) (decode_ascii_replace bs) \<Longrightarrow>
     map of_nat (decode_ascii_replace bs) = bs"
proof (induction bs)
  case Nil
  then show ?case by (simp add: decode_ascii_replace_def)
next
  case (Cons b bs)
  then have "unat b < 128" and "list_all (\<lambda>c. c < 128) (decode_ascii_replace bs)"
    by (simp_all add: decode_ascii_replace_def split: if_splits)
  with Cons.IH show ?case by (simp add: decode_ascii_replace_def)
qed

lemma emitted_raw_name:
  assumes "emitted_from data lo hi e" and "ascii_name e"
  shows "map of_nat (name e) =
           slice data (local_header_offset e + 30) (local_header_offset e + 30 + fn_len e)"
proof -
  let ?o = "local_header_offset e"
  from assms(1) have e: "e = make_entry data ?o (fields_at data (?o + 4))"
    by (simp add: emitted_from_def)
  have f: "fn_len e = fields_at data (?o + 4) ! 8" by (subst e) simp
  have "name e = decode_ascii_replace (slice data (?o + 30) (?o + 30 + fn_len e))"
    unfolding f by (subst e) simp
  with assms(2) show ?thesis by (simp add: ascii_name_def encode_decode_ascii)
qed

section \<open>Scanning a rebuilt archive again\<close>

lemma slice4_nth:
  assumes "offset + 4 \<le> length xs"
  shows "slice xs offset (offset + 4) =
           [xs ! offset, xs ! (offset + 1), xs ! (offset + 2), xs ! (offset + 3)]"
proof (rule nth_equalityI)
  show "length (slice xs offset (offset + 4)) =
        length [xs ! offset, xs ! (offset + 1), xs ! (offset + 2), xs ! (offset + 3)]"
    using assms by (simp add: slice_def)
next
  fix i
  assume "i < length (slice xs offset (offset + 4))"
  then have "i < 4" using assms by (simp add: slice_def)
  then consider "i = 0" | "i = 1" | "i = 2" | "i = 3" by linarith
  then show "slice xs offset (offset + 4) ! i =
             [xs ! offset, xs ! (offset + 1), xs ! (offset + 2), xs ! (offset + 3)] ! i"
    using assms by cases (simp_all add: slice_def)
qed

lemma sig_bytes:
  assumes "length bs = 4"
  shows "le_val bs = 0x04034B50 \<longleftrightarrow> bs = [0x50, 0x4B, 0x03, 0x04]"
    and "le_val bs = 0x02014B50 \<longleftrightarrow> bs = [0x50, 0x4B, 0x01, 0x02]"
proof -
  have a: "le_val [0x50, 0x4B, 0x03, 0x04] = 0x04034B50" by simp
  have b: "le_val [0x50, 0x4B, 0x01, 0x02] = 0x02014B50" by simp
  show "le_val bs = 0x04034B50 \<longleftrightarrow> bs = [0x50, 0x4B, 0x03, 0x04]"
    using le_val_inj [of bs "[0x50, 0x4B, 0x03, 0x04]"] assms a by auto
  show "le_val bs = 0x02014B50 \<longleftrightarrow> bs = [0x50, 0x4B, 0x01, 0x02]"
    using le_val_inj [of bs "[0x50, 0x4B, 0x01, 0x02]"] assms b by auto
qed

lemma sig_straddle:
  assumes cd: "slice out e (e + 4) = [0x50, 0x4B, 0x01, 0x02]" and len: "e + 4 \<le> length out"
    and lt: "offset < e" and st: "e < offset + 4"
  shows "sig_at out offset \<noteq> 0x04034B50" and "sig_at out offset \<noteq> 0x02014B50"
proof -
  have o: "offset + 4 \<le> length out" using len lt by simp
  have e0: "out ! e = 0x50" using cd slice4_nth [OF len] by simp
  have s: "slice out offset (offset + 4) =
      [out ! offset, out ! (offset + 1), out ! (offset + 2), out ! (offset + 3)]"
    by (rule slice4_nth [OF o])
  have l4: "length (slice out offset (offset + 4)) = 4" using s by simp
  from lt st consider "e = offset + 1" | "e = offset + 2" | "e = offset + 3" by linarith
  then have "slice out offset (offset + 4) \<noteq> [0x50, 0x4B, 0x03, 0x04] \<and>
             slice out offset (offset + 4) \<noteq> [0x50, 0x4B, 0x01, 0x02]"
  proof cases
    case 1 then show ?thesis using s e0 by auto
  next
    case 2 then show ?thesis using s e0 by auto
  next
    case 3 then show ?thesis using s e0 by auto
  qed
  then show "sig_at out offset \<noteq> 0x04034B50" and "sig_at out offset \<noteq> 0x02014B50"
    using sig_bytes [OF l4] by (simp_all add: sig_at_def)
qed

lemma make_entry_eq:
  assumes t: "take lim a = take lim b" and n: "next_offset b offset \<le> lim"
  shows "make_entry a offset (fields_at a (offset + 4)) =
         make_entry b offset (fields_at b (offset + 4))"
proof -
  have o30: "offset + 30 \<le> lim" using n next_offset_gt [of offset b] by linarith
  then have "offset + 4 + 26 \<le> lim" by simp
  from fields_at_eq [OF t this] have f: "fields_at a (offset + 4) = fields_at b (offset + 4)" .
  have "offset + 30 + fields_at b (offset + 4) ! 8 \<le> lim"
    using n by (simp add: next_offset_def)
  from slice_eq_take [OF t this]
  have "slice a (offset + 30) (offset + 30 + fields_at b (offset + 4) ! 8) =
        slice b (offset + 30) (offset + 30 + fields_at b (offset + 4) ! 8)" .
  then show ?thesis using f by (simp add: make_entry_def)
qed

lemma rescan:
  assumes t: "take e out = take e data" and cd: "slice out e (e + 4) = [0x50, 0x4B, 0x01, 0x02]"
    and len: "e + 30 < length out"
  shows "scan_loop data offset acc = Inr (es, e) \<Longrightarrow> scan_loop out offset acc = Inr (es, e)"
proof (induction offset acc rule: scan_walk_induct [where data = data])
  have l4: "length (slice out e (e + 4)) = 4" using cd by simp
  have sg: "sig_at out e = 0x02014B50"
    using sig_bytes(2) [OF l4] cd by (simp add: sig_at_def)
  {
    case (stop offset acc)
    then have "es = acc" "e = offset" by (simp_all add: scan_stop)
    then show ?case using scan_cd [of e out acc] len sg by simp
  next
    case (local offset acc)
    let ?x = "make_entry data offset (fields_at data (offset + 4))"
    let ?n = "next_offset data offset"
    from local have r: "scan_loop data ?n (acc @ [?x]) = Inr (es, e)" by (simp add: scan_local)
    from scan_result [OF r] have ne: "?n \<le> e" by simp
    have o30: "offset + 30 \<le> e" using ne next_offset_gt [of offset data] by linarith
    have g: "offset + 30 < length out" using o30 len by simp
    have s: "sig_at out offset = 0x04034B50"
      using sig_at_eq [OF t, of offset] o30 local(2) by simp
    have nx: "next_offset out offset = ?n" by (rule next_offset_eq [OF t o30])
    have x: "make_entry out offset (fields_at out (offset + 4)) = ?x"
      by (rule make_entry_eq [OF t ne])
    have "scan_loop out offset acc = scan_loop out ?n (acc @ [?x])"
      using scan_local [OF g s, of acc] nx x by simp
    with local.IH [OF r] show ?case by simp
  next
    case (cd offset acc)
    then have "es = acc" "e = offset" by (simp_all add: scan_cd)
    then show ?case using scan_cd [of e out acc] len sg by simp
  next
    case (skip offset acc)
    from skip have r: "scan_loop data (offset + 1) acc = Inr (es, e)" by (simp add: scan_skip)
    from scan_result [OF r] have lt: "offset < e" by simp
    have g: "offset + 30 < length out" using lt len by simp
    have "sig_at out offset \<noteq> 0x04034B50 \<and> sig_at out offset \<noteq> 0x02014B50"
    proof (cases "offset + 4 \<le> e")
      case True
      from sig_at_eq [OF t True] skip(2,3) show ?thesis by simp
    next
      case False
      then have st: "e < offset + 4" by simp
      have "e + 4 \<le> length out" using len by simp
      from sig_straddle [OF assms(2) this lt st] show ?thesis by simp
    qed
    then have "scan_loop out offset acc = scan_loop out (offset + 1) acc"
      using scan_skip [OF g, of acc] by simp
    with skip.IH [OF r] show ?case by simp
  }
qed

section \<open>Repairing twice\<close>

lemma pack_cd_entry_Inr: "pack_cd_entry e = Inr entry \<Longrightarrow> entry = cd_fixed e"
  by (simp add: pack_cd_entry_def struct_pack_def cd_fixed_def le_bytes_2 le_bytes_4
      split: if_splits)

lemma encode_ascii_Inr: "encode_ascii s = Inr bs \<Longrightarrow> bs = map of_nat s"
  by (simp add: encode_ascii_def split: if_splits)

lemma cd_loop_Inr: "cd_loop es acc = Inr r \<Longrightarrow> r = acc @ concat (map cd_record es)"
proof (induction es arbitrary: acc)
  case Nil
  then show ?case by simp
next
  case (Cons e es)
  from Cons.prems obtain fn entry where fn: "encode_ascii (name e) = Inr fn"
    and en: "pack_cd_entry e = Inr entry"
    and r: "cd_loop es (acc @ entry @ fn) = Inr r"
    by (auto split: sum.splits)
  from Cons.IH [OF r] encode_ascii_Inr [OF fn] pack_cd_entry_Inr [OF en]
  show ?case by (simp add: cd_record_def)
qed

lemma pack_eocd_Inr: "pack_eocd n s e = Inr r \<Longrightarrow> r = eocd_record n s e"
  by (simp add: pack_eocd_def struct_pack_def eocd_record_def le_bytes_2 le_bytes_4
      split: if_splits)

lemma rebuild_unfold:
  assumes scan: "scan_loop data 0 [] = Inr (es, e)"
  shows "rebuild_zip_central_directory data = Inr (out, n) \<longleftrightarrow>
           (\<exists>cd eocd. cd_loop es [] = Inr cd \<and> pack_eocd (length es) (length cd) e = Inr eocd \<and>
              out = slice data 0 e @ cd @ eocd \<and> n = length es)"
proof (cases "cd_loop es []")
  case (Inl err)
  then show ?thesis using scan by (simp add: rebuild_zip_central_directory_def)
next
  case cd: (Inr cd)
  show ?thesis
  proof (cases "pack_eocd (length es) (length cd) e")
    case (Inl err)
    then show ?thesis using scan cd by (simp add: rebuild_zip_central_directory_def)
  next
    case (Inr eocd)
    then show ?thesis using scan cd by (auto simp add: rebuild_zip_central_directory_def)
  qed
qed

lemma rebuild_again:
  assumes scan: "scan_loop data 0 [] = Inr (es, e)" and ne: "es \<noteq> []"
    and le: "e \<le> length data"
    and rb: "rebuild_zip_central_directory data = Inr (out, n)"
  shows "rebuild_zip_central_directory out = Inr (out, n)"
proof -
  from rb rebuild_unfold [OF scan] obtain cd eocd where cdl: "cd_loop es [] = Inr cd"
    and pe: "pack_eocd (length es) (length cd) e = Inr eocd"
    and out: "out = slice data 0 e @ cd @ eocd" and n: "n = length es"
    by blast
  have cd: "cd = concat (map cd_record es)" using cd_loop_Inr [OF cdl] by simp
  have eocd: "eocd = eocd_record (length es) (length cd) e" by (rule pack_eocd_Inr [OF pe])
  have P: "slice data 0 e = take e data" by (simp add: slice_def)
  have lp: "length (take e data) = e" using le by simp
  have o2: "out = take e data @ cd @ eocd" using out P by simp
  have t: "take e out = take e data" using lp by (simp add: o2)
  have "slice out (length (take e data) + 0) (length (take e data) + 4) = slice (cd @ eocd) 0 4"
    unfolding o2 by (rule slice_append_right)
  then have "slice out e (e + 4) = take 4 (cd @ eocd)" using lp by (simp add: slice_def)
  then have sg: "slice out e (e + 4) = [0x50, 0x4B, 0x01, 0x02]"
    using take4_cd_records [OF ne, of eocd] cd by simp
  have "length out = e + length cd + 22" using lp eocd by (simp add: o2)
  then have len: "e + 30 < length out" using length_cd_records [OF ne] cd by simp
  have scan2: "scan_loop out 0 [] = Inr (es, e)" by (rule rescan [OF t sg len scan])
  have s2: "slice out 0 e = take e data" using t by (simp add: slice_def)
  have "\<exists>cd' eocd'. cd_loop es [] = Inr cd' \<and> pack_eocd (length es) (length cd') e = Inr eocd' \<and>
              out = slice out 0 e @ cd' @ eocd' \<and> n = length es"
  proof (intro exI conjI)
    show "cd_loop es [] = Inr cd" by (rule cdl)
    show "pack_eocd (length es) (length cd) e = Inr eocd" by (rule pe)
    show "out = slice out 0 e @ cd @ eocd" unfolding s2 by (rule o2)
    show "n = length es" by (rule n)
  qed
  then show ?thesis using rebuild_unfold [OF scan2] by blast
qed

lemmas overlong_defs = overlong_entry_def overlong_entry_dict_def overlong_repaired_def
  overlong_repaired_twice_def cd_record_def cd_fixed_def eocd_record_def

lemma rebuild_overlong: "rebuild_zip_central_directory overlong_entry = Inr (overlong_repaired, 1)"
  by (simp add: run_defs overlong_defs)

lemma verify_overlong: "verify_zip overlong_repaired = Inr (False, OffsetOutOfBounds 99)"
  by (simp add: run_defs overlong_defs)

lemma rebuild_overlong_twice:
  "rebuild_zip_central_directory overlong_repaired = Inr (overlong_repaired_twice, 1)"
  by (simp add: run_defs overlong_defs)

lemma verify_overlong_twice: "verify_zip overlong_repaired_twice = Inr (True, Valid 1 99)"
  by (simp add: run_defs overlong_defs)

lemma rebuild_stray: "rebuild_zip_central_directory stray_bytes = Inr (0 # eocd_record 0 0 1, 0)"
  by (simp add: run_defs stray_bytes_def eocd_record_def)

lemma verify_stray: "verify_zip (0 # eocd_record 0 0 1) = Inr (False, BadCDSignature 1)"
  by (simp add: run_defs eocd_record_def)

lemma rebuild_stray_twice:
  "rebuild_zip_central_directory (0 # eocd_record 0 0 1) = Inr (eocd_record 0 0 0, 0)"
  by (simp add: run_defs eocd_record_def)

section \<open>Buffers beyond the limits of the format\<close>

lemma sig_at_append: "sig_at (X @ Y) (length X + p) = sig_at Y p"
  by (simp add: sig_at_def slice_def)

lemma fields_at_append: "fields_at (X @ Y) (length X + p) = fields_at Y p"
  by (simp add: fields_at_def slice_def)

lemma next_offset_append: "next_offset (X @ Y) (length X + p) = length X + next_offset Y p"
  using fields_at_append [of X Y "p + 4"] by (simp add: next_offset_def add.assoc)

lemma make_entry_append:
  "make_entry (X @ Y) (length X + p) (fields_at (X @ Y) (length X + p + 4)) =
     (make_entry Y p (fields_at Y (p + 4)))\<lparr>local_header_offset := length X + p\<rparr>"
  using fields_at_append [of X Y "p + 4"] by (simp add: make_entry_def slice_def add.assoc)

lemma sig_at_zero_byte:
  assumes "offset + 4 \<le> length data" and "data ! offset = 0"
  shows "sig_at data offset \<noteq> 0x04034B50" and "sig_at data offset \<noteq> 0x02014B50"
proof -
  have "sig_at data offset = 256 * le_val [data ! (offset + 1), data ! (offset + 2), data ! (offset + 3)]"
    using slice4_nth [OF assms(1)] assms(2) by (simp add: sig_at_def)
  then have "sig_at data offset mod 256 = 0" by simp
  then show "sig_at data offset \<noteq> 0x04034B50" and "sig_at data offset \<noteq> 0x02014B50"
    by auto
qed

lemma scan_zeros:
  assumes T: "30 < length T"
  shows "offset \<le> k \<Longrightarrow>
     scan_loop (replicate k 0 @ T) offset acc = scan_loop (replicate k 0 @ T) k acc"
proof (induction "k - offset" arbitrary: offset)
  case 0
  then show ?case by simp
next
  case (Suc d)
  then have lt: "offset < k" by simp
  let ?D = "replicate k 0 @ T"
  have g: "offset + 30 < length ?D" using lt T by simp
  have z: "?D ! offset = 0" using lt by (simp add: nth_append)
  have "offset + 4 \<le> length ?D" using g by simp
  from sig_at_zero_byte [OF this z]
  have "scan_loop ?D offset acc = scan_loop ?D (offset + 1) acc"
    using scan_skip [OF g] by simp
  moreover have "scan_loop ?D (offset + 1) acc = scan_loop ?D k acc"
    using Suc lt by (intro Suc.hyps(1)) simp_all
  ultimately show ?case by simp
qed

lemma scan_zeros_then_entry:
  "scan_loop (replicate k 0 @ truncated_entry) 0 [] =
     Inr ([truncated_entry_dict\<lparr>local_header_offset := k\<rparr>], k + 135)"
proof -
  let ?Z = "replicate k (0 :: byte)"
  let ?D = "?Z @ truncated_entry"
  have lz: "length ?Z = k" by simp
  have lt: "length truncated_entry = 31" by (simp add: truncated_entry_def)
  have s0: "sig_at truncated_entry 0 = 0x04034B50"
    by (simp add: sig_at_def slice_def truncated_entry_def)
  have n0: "next_offset truncated_entry 0 = 135"
    by (simp add: next_offset_def fields_at_def slice_def truncated_entry_def)
  have e0: "make_entry truncated_entry 0 (fields_at truncated_entry (0 + 4)) = truncated_entry_dict"
    by (simp add: make_entry_def fields_at_def slice_def truncated_entry_def
          truncated_entry_dict_def decode_ascii_replace_def)
  have s: "sig_at ?D k = 0x04034B50" using sig_at_append [of ?Z truncated_entry 0] s0 by simp
  have n: "next_offset ?D k = k + 135"
    using next_offset_append [of ?Z truncated_entry 0] n0 by simp
  have e: "make_entry ?D k (fields_at ?D (k + 4)) = truncated_entry_dict\<lparr>local_header_offset := k\<rparr>"
    using make_entry_append [of ?Z truncated_entry 0] e0 by simp
  have "scan_loop ?D 0 [] = scan_loop ?D k []"
    using scan_zeros [of truncated_entry 0 k "[]"] lt by simp
  also have "\<dots> = scan_loop ?D (k + 135) ([] @ [truncated_entry_dict\<lparr>local_header_offset := k\<rparr>])"
    using scan_local [of k ?D "[]"] s n e lt by simp
  also have "\<dots> = Inr ([] @ [truncated_entry_dict\<lparr>local_header_offset := k\<rparr>], k + 135)"
    using lt by (intro scan_stop) simp
  finally show ?thesis by simp
qed

lemma cd_loop_wide_offset:
  "cd_loop [truncated_entry_dict\<lparr>local_header_offset := 4294967296\<rparr>] [] = Inl StructError"
  by (simp add: truncated_entry_dict_def encode_ascii_def pack_cd_entry_def struct_pack_def)

lemma tiny_entry_bytes:
  "tiny_entry = [0x50, 0x4B, 0x03, 0x04, 20, 0, 0, 0, 0, 0, 0, 0, 0, 0, 0, 0, 0, 0,
                 0, 0, 0, 0, 0, 0, 0, 0, 1, 0, 0, 0, 0x61]"
  by (simp add: tiny_entry_def minimal_local_entry_def le_bytes_2 le_bytes_4)

lemma tiny_entry_head:
  "sig_at (tiny_entry @ rest) 0 = 0x04034B50"
  "next_offset (tiny_entry @ rest) 0 = 31"
  "name (make_entry (tiny_entry @ rest) 0 (fields_at (tiny_entry @ rest) (0 + 4))) = [0x61]"
  by (simp_all add: tiny_entry_bytes sig_at_def next_offset_def fields_at_def slice_def
        make_entry_def decode_ascii_replace_def)

lemma length_tiny_entry: "length tiny_entry = 31" by (simp add: tiny_entry_bytes)

lemma tiny_step:
  "sig_at (pre @ tiny_entry @ rest) (length pre) = 0x04034B50"
  "next_offset (pre @ tiny_entry @ rest) (length pre) = length pre + 31"
  "name (make_entry (pre @ tiny_entry @ rest) (length pre)
           (fields_at (pre @ tiny_entry @ rest) (length pre + 4))) = [0x61]"
proof -
  show "sig_at (pre @ tiny_entry @ rest) (length pre) = 0x04034B50"
    using sig_at_append [of pre "tiny_entry @ rest" 0] tiny_entry_head(1) [of rest] by simp
  show "next_offset (pre @ tiny_entry @ rest) (length pre) = length pre + 31"
    using next_offset_append [of pre "tiny_entry @ rest" 0] tiny_entry_head(2) [of rest] by simp
  show "name (make_entry (pre @ tiny_entry @ rest) (length pre)
           (fields_at (pre @ tiny_entry @ rest) (length pre + 4))) = [0x61]"
    using make_entry_append [of pre "tiny_entry @ rest" 0] tiny_entry_head(3) [of rest] by simp
qed

lemma scan_tiny_step:
  "scan_loop (pre @ tiny_entry @ rest) (length pre) acc =
     scan_loop ((pre @ tiny_entry) @ rest) (length (pre @ tiny_entry))
       (acc @ [make_entry (pre @ tiny_entry @ rest) (length pre)
                 (fields_at (pre @ tiny_entry @ rest) (length pre + 4))])"
proof -
  have g: "length pre + 30 < length (pre @ tiny_entry @ rest)" by (simp add: length_tiny_entry)
  show ?thesis
    using scan_local [OF g tiny_step(1), of acc] by (simp add: tiny_step(2) length_tiny_entry)
qed

lemma fully_parsed_tiny_step:
  assumes "fully_parsed ((pre @ tiny_entry) @ rest) (length (pre @ tiny_entry))
             (length ((pre @ tiny_entry) @ rest))"
  shows "fully_parsed (pre @ tiny_entry @ rest) (length pre) (length (pre @ tiny_entry @ rest))"
proof (rule fully_parsed_intro)
  show "length pre < length (pre @ tiny_entry @ rest)" by (simp add: length_tiny_entry)
  show "length pre + 30 \<le> length (pre @ tiny_entry @ rest)" by (simp add: length_tiny_entry)
  show "sig_at (pre @ tiny_entry @ rest) (length pre) = 0x04034B50" by (rule tiny_step(1))
  show "next_offset (pre @ tiny_entry @ rest) (length pre) \<le> length (pre @ tiny_entry @ rest)"
    by (simp add: tiny_step(2) length_tiny_entry)
  show "fully_parsed (pre @ tiny_entry @ rest) (next_offset (pre @ tiny_entry @ rest) (length pre))
          (length (pre @ tiny_entry @ rest))"
    using assms by (simp add: tiny_step(2) length_tiny_entry)
qed

lemma scan_tiny_entries:
  "scan_loop (pre @ concat (replicate k tiny_entry)) (length pre) acc = Inr (es, e) \<Longrightarrow>
     e = length pre + 31 * k \<and>
     (\<exists>new. es = acc @ new \<and> length new = k \<and> list_all ascii_name new)"
proof (induction k arbitrary: pre acc)
  case 0
  have "scan_loop pre (length pre) acc = Inr (acc, length pre)" by (rule scan_stop) simp
  with "0.prems" show ?case by simp
next
  case (Suc k)
  define rest where "rest = concat (replicate k tiny_entry)"
  define x where "x = make_entry (pre @ tiny_entry @ rest) (length pre)
                 (fields_at (pre @ tiny_entry @ rest) (length pre + 4))"
  have c: "concat (replicate (Suc k) tiny_entry) = tiny_entry @ rest" by (simp add: rest_def)
  have a: "ascii_name x" unfolding x_def ascii_name_def tiny_step(3) by simp
  have "scan_loop ((pre @ tiny_entry) @ rest) (length (pre @ tiny_entry)) (acc @ [x]) = Inr (es, e)"
    using Suc.prems unfolding c scan_tiny_step [of pre rest acc] x_def .
  from Suc.IH [OF this [unfolded rest_def]] obtain new where
    e: "e = length (pre @ tiny_entry) + 31 * k"
    and es: "es = (acc @ [x]) @ new" and ln: "length new = k" and an: "list_all ascii_name new"
    by blast
  have 1: "e = length pre + 31 * Suc k" using e by (simp add: length_tiny_entry)
  have 2: "es = acc @ (x # new)" using es by simp
  have 3: "length (x # new) = Suc k" using ln by simp
  have 4: "list_all ascii_name (x # new)" using a an by simp
  from 1 2 3 4 show ?case by blast
qed

lemma fully_parsed_tiny_entries:
  "fully_parsed (pre @ concat (replicate k tiny_entry)) (length pre)
     (length (pre @ concat (replicate k tiny_entry)))"
proof (induction k arbitrary: pre)
  case 0
  show ?case using fully_parsed_end [of pre "length pre"] by simp
next
  case (Suc k)
  define rest where "rest = concat (replicate k tiny_entry)"
  have c: "concat (replicate (Suc k) tiny_entry) = tiny_entry @ rest" by (simp add: rest_def)
  have "fully_parsed ((pre @ tiny_entry) @ rest) (length (pre @ tiny_entry))
             (length ((pre @ tiny_entry) @ rest))"
    using Suc.IH [of "pre @ tiny_entry"] unfolding rest_def .
  then show ?case unfolding c by (rule fully_parsed_tiny_step)
qed

lemma length_tiny_entries: "length (concat (replicate k tiny_entry)) = 31 * k"
  by (induction k) (simp_all add: length_tiny_entry)

lemma many_tiny_entries:
  assumes k: "k = 65536"
  shows "rebuild_zip_central_directory (concat (replicate k tiny_entry)) = Inl StructError"
    and "fully_parsed (concat (replicate k tiny_entry)) 0 (length (concat (replicate k tiny_entry)))"
    and "\<exists>es. scan_loop (concat (replicate k tiny_entry)) 0 [] =
               Inr (es, length (concat (replicate k tiny_entry))) \<and>
             length es = k \<and> list_all ascii_name es"
proof -
  define D where "D = concat (replicate k tiny_entry)"
  obtain es e where scan: "scan_loop D 0 [] = Inr (es, e)" using scan_total by blast
  have "scan_loop ([] @ concat (replicate k tiny_entry)) (length ([] :: byte list)) [] = Inr (es, e)"
    using scan by (simp add: D_def)
  from scan_tiny_entries [OF this]
  have e: "e = 31 * k" and n: "length es = k" and a: "list_all ascii_name es" by auto
  have lD: "length D = 31 * k" unfolding D_def by (rule length_tiny_entries)
  show "\<exists>es. scan_loop (concat (replicate k tiny_entry)) 0 [] =
               Inr (es, length (concat (replicate k tiny_entry))) \<and>
             length es = k \<and> list_all ascii_name es"
    using scan n a e lD unfolding D_def by auto
  show "fully_parsed (concat (replicate k tiny_entry)) 0 (length (concat (replicate k tiny_entry)))"
    using fully_parsed_tiny_entries [of "[]" k] by simp
  from scan_result [OF scan] have "\<forall>x \<in> set es. emitted_from D 0 e x" by simp
  moreover have "e < 4294967296" using e k by simp
  ultimately have "\<forall>x \<in> set es. fits_cd x" by (blast intro: emitted_fits)
  with a have cd: "cd_loop es [] = Inr (concat (map cd_record es))"
    by (simp add: cd_loop_ok list_all_iff)
  have "pack_eocd (length es) s e = Inl StructError" for s
    using n k by (simp add: pack_eocd_def struct_pack_def)
  then show "rebuild_zip_central_directory (concat (replicate k tiny_entry)) = Inl StructError"
    using scan cd unfolding D_def [symmetric] by (simp add: rebuild_zip_central_directory_def)
qed

lemma too_many_entries:
  "rebuild_zip_central_directory (concat (replicate 65536 tiny_entry)) = Inl StructError"
  by (rule many_tiny_entries(1) [OF refl])

lemma tiny_entry_parsed:
  "make_entry (tiny_entry @ rest) 0 (fields_at (tiny_entry @ rest) (0 + 4)) = tiny_entry_dict"
  by (simp add: tiny_entry_bytes make_entry_def fields_at_def slice_def tiny_entry_dict_def
        decode_ascii_replace_def)

lemma scan_zeros_then_tiny_entry:
  "scan_loop (replicate k 0 @ tiny_entry) 0 [] =
     Inr ([tiny_entry_dict\<lparr>local_header_offset := k\<rparr>], k + 31)"
proof -
  define Z where "Z = replicate k (0 :: byte)"
  define D where "D = Z @ tiny_entry"
  have lz: "length Z = k" by (simp add: Z_def)
  have lD: "length D = k + 31" by (simp add: D_def lz length_tiny_entry)
  have s: "sig_at D k = 0x04034B50"
    using sig_at_append [of Z "tiny_entry @ []" 0] tiny_entry_head(1) [of "[]"]
    by (simp add: D_def lz)
  have n: "next_offset D k = k + 31"
    using next_offset_append [of Z "tiny_entry @ []" 0] tiny_entry_head(2) [of "[]"]
    by (simp add: D_def lz)
  have e: "make_entry D k (fields_at D (k + 4)) = tiny_entry_dict\<lparr>local_header_offset := k\<rparr>"
    using make_entry_append [of Z "tiny_entry @ []" 0] tiny_entry_parsed [of "[]"]
    by (simp add: D_def lz)
  have g: "k + 30 < length D" by (simp add: lD)
  have "30 < length tiny_entry" by (simp add: length_tiny_entry)
  from scan_zeros [OF this, of 0 k "[]"]
  have "scan_loop D 0 [] = scan_loop D k []" by (simp add: D_def Z_def)
  also have "\<dots> = scan_loop D (k + 31) ([] @ [tiny_entry_dict\<lparr>local_header_offset := k\<rparr>])"
    using scan_local [OF g s, of "[]"] unfolding n e .
  also have "\<dots> = Inr ([] @ [tiny_entry_dict\<lparr>local_header_offset := k\<rparr>], k + 31)"
    by (rule scan_stop) (simp add: lD)
  finally show ?thesis by (simp add: D_def Z_def)
qed

lemma cd_loop_offset_too_wide:
  "cd_loop [tiny_entry_dict\<lparr>local_header_offset := 4294967296\<rparr>] [] = Inl StructError"
  by (simp add: tiny_entry_dict_def encode_ascii_def pack_cd_entry_def struct_pack_def)

lemma ascii_tiny_entry_dict: "ascii_name (tiny_entry_dict\<lparr>local_header_offset := k\<rparr>)"
  by (simp add: ascii_name_def tiny_entry_dict_def)

lemma scan_stale_archive: "scan_loop stale_archive 0 [] = Inr ([tiny_entry_dict], 31)"
  by (simp add: run_defs stale_archive_def tiny_entry_bytes tiny_entry_dict_def)

lemma length_stale_archive: "length stale_archive = 62"
  by (simp add: stale_archive_def tiny_entry_bytes)

lemma emitted_fits_offset:
  "emitted_from data lo hi e \<Longrightarrow> local_header_offset e < 4294967296 \<Longrightarrow> fits_cd e"
proof -
  assume em: "emitted_from data lo hi e" and o: "local_header_offset e < 4294967296"
  let ?o = "local_header_offset e"
  from em have e: "e = make_entry data ?o (fields_at data (?o + 4))"
    by (simp add: emitted_from_def)
  have "fits_cd (make_entry data ?o (fields_at data (?o + 4))) \<longleftrightarrow> ?o < 4294967296"
    using fields_at_bound(2) [of data "?o + 4"] by (simp add: fits_cd_def fields_at_bound)
  with o e show ?thesis by simp
qed

lemma pack_cd_entry_cases:
  "pack_cd_entry e = Inr (cd_fixed e) \<or> pack_cd_entry e = Inl StructError"
  by (simp add: pack_cd_entry_def struct_pack_def cd_fixed_def le_bytes_2 le_bytes_4)

lemma cd_loop_ascii_cases:
  "\<forall>x \<in> set es. ascii_name x \<Longrightarrow>
     cd_loop es acc = Inr (acc @ concat (map cd_record es)) \<or> cd_loop es acc = Inl StructError"
proof (induction es arbitrary: acc)
  case Nil
  then show ?case by simp
next
  case (Cons e es)
  from Cons.prems have a: "ascii_name e" and r: "\<forall>x \<in> set es. ascii_name x" by simp_all
  from pack_cd_entry_cases [of e] show ?case
  proof
    assume p: "pack_cd_entry e = Inr (cd_fixed e)"
    from Cons.IH [OF r, of "acc @ cd_fixed e @ map of_nat (name e)"] p a
    show ?thesis by (simp add: encode_ascii_ok cd_record_def)
  next
    assume "pack_cd_entry e = Inl StructError"
    with a show ?thesis by (simp add: encode_ascii_ok)
  qed
qed

lemma pack_eocd_cases:
  "pack_eocd n s e =
     (if n < 65536 \<and> s < 4294967296 \<and> e < 4294967296 then Inr (eocd_record n s e)
      else Inl StructError)"
  by (simp add: pack_eocd_def struct_pack_def eocd_record_def le_bytes_2 le_bytes_4)

lemma rebuild_limits:
  assumes scan: "scan_loop data 0 [] = Inr (es, e)"
    and ascii: "\<forall>x \<in> set es. ascii_name x"
    and nb: "\<not> (length es < 65536 \<and> length (concat (map cd_record es)) < 4294967296 \<and>
               e < 4294967296)"
  shows "rebuild_zip_central_directory data = Inl StructError"
proof -
  from cd_loop_ascii_cases [OF ascii, of "[]"] show ?thesis
  proof
    assume "cd_loop es [] = Inr ([] @ concat (map cd_record es))"
    then show ?thesis
      using scan nb by (simp add: rebuild_zip_central_directory_def pack_eocd_cases)
  next
    assume "cd_loop es [] = Inl StructError"
    then show ?thesis using scan by (simp add: rebuild_zip_central_directory_def)
  qed
qed


section \<open>The claims\<close>

text \<open>
  C1. Claimed: for every buffer the scanner parses fully, repair followed by verify
  returns \<open>valid = True\<close>. Two buffers whose local region is consumed exactly by
  local records show otherwise. The empty buffer has no record at all: repair writes a
  bare end record at offset 0 and the verifier, which requires a central-directory
  signature at the declared offset, reports "Invalid CD signature". The 31-byte buffer
  with the one-byte name \<open>0xE9\<close> is scanned into one entry and repair raises while
  re-encoding the name.
\<close>

theorem C1_empty_or_non_ascii_not_valid:
  "fully_parsed [] 0 0 \<and> scan_loop [] 0 [] = Inr ([], 0) \<and>
   rebuild_zip_central_directory [] = Inr (eocd_record 0 0 0, 0) \<and>
   verify_zip (eocd_record 0 0 0) = Inr (False, BadCDSignature 0) \<and>
   fully_parsed non_ascii_entry 0 31 \<and> length non_ascii_entry = 31 \<and>
   scan_loop non_ascii_entry 0 [] = Inr ([non_ascii_entry_dict], 31) \<and>
   rebuild_zip_central_directory non_ascii_entry = Inl UnicodeEncodeError"
  using rebuild_empty verify_empty_eocd fully_parsed_non_ascii_entry scan_non_ascii_entry
    rebuild_non_ascii_entry fully_parsed_end [of "[]" 0] scan_stop [of 0 "[]" "[]"]
  by (simp add: non_ascii_entry_def)

text \<open>
  C1, as the code has it: when the scanner's walk consumes the local region exactly
  (\<open>fully_parsed\<close>, ending inside the buffer), finds at least one entry, every name
  is pure ASCII, the count and the sizes fit the fields of the end record, and the end
  record does not contain its own signature a second time, then repair returns and
  verify accepts its output, reporting the entry count and the offset of the central
  directory.
\<close>

theorem C1_repair_then_verify_valid:
  assumes "scan_loop data 0 [] = Inr (entries, local_data_end)"
    and "fully_parsed data 0 local_data_end" and "local_data_end \<le> length data"
    and "entries \<noteq> []"
    and "\<forall>e \<in> set entries. ascii_name e"
    and "length entries < 65536"
    and "length (concat (map cd_record entries)) < 4294967296"
    and "local_data_end < 4294967296"
    and "rfind (eocd_record (length entries) (length (concat (map cd_record entries)))
                  local_data_end) [0x50, 0x4B, 0x05, 0x06] = Some 0"
  shows "\<exists>out. rebuild_zip_central_directory data = Inr (out, length entries) \<and>
               verify_zip out = Inr (True, Valid (length entries) local_data_end)"
  using repair_then_verify [OF assms] by blast

theorem C1_repair_then_verify_valid_witness:
  "\<exists>es. scan_loop two_entry_archive 0 [] = Inr (es, 78) \<and>
     fully_parsed two_entry_archive 0 78 \<and> 78 \<le> length two_entry_archive \<and> es \<noteq> [] \<and>
     list_all ascii_name es \<and> length es < 65536 \<and>
     length (concat (map cd_record es)) < 4294967296 \<and>
     rfind (eocd_record (length es) (length (concat (map cd_record es))) 78)
       [0x50, 0x4B, 0x05, 0x06] = Some 0 \<and>
     (\<exists>out. rebuild_zip_central_directory two_entry_archive = Inr (out, length es) \<and>
            verify_zip out = Inr (True, Valid (length es) 78))"
proof -
  from two_entry_archive_facts(2) obtain es where
    scan: "scan_loop two_entry_archive 0 [] = Inr (es, 78)" and n: "length es = 2"
    and ascii: "\<forall>x \<in> set es. ascii_name x"
    and cd: "length (concat (map cd_record es)) = 102" by blast
  have fp: "fully_parsed two_entry_archive 0 78" by (rule two_entry_archive_facts(3))
  have le: "78 \<le> length two_entry_archive" using two_entry_archive_facts(1) by simp
  have ne: "es \<noteq> []" using n by auto
  have n': "length es < 65536" and cd': "length (concat (map cd_record es)) < 4294967296"
    using n cd by simp_all
  have rf: "rfind (eocd_record (length es) (length (concat (map cd_record es))) 78)
       [0x50, 0x4B, 0x05, 0x06] = Some 0" using rfind_eocd_2_102_78 n cd by simp
  from C1_repair_then_verify_valid [OF scan fp le ne ascii n' cd' _ rf]
  have "\<exists>out. rebuild_zip_central_directory two_entry_archive = Inr (out, length es) \<and>
            verify_zip out = Inr (True, Valid (length es) 78)" by simp
  moreover have "list_all ascii_name es" using ascii by (simp add: list_all_iff)
  ultimately show ?thesis using scan fp le ne n' cd' rf by blast
qed

text \<open>
  C2. Claimed: repair never fails because of filename content; non-ASCII bytes of a
  name are replaced while decoding and the pipeline still returns a repaired buffer.
  The code decodes with \<open>errors="replace"\<close> but re-encodes the name with the strict
  \<open>encode("ascii")\<close>: on the 31-byte buffer made of one local header with a one-byte
  name \<open>0x80\<close>, the replacement character U+FFFD cannot be encoded and the call
  raises \<open>UnicodeEncodeError\<close> before anything is written.
\<close>

theorem C2_non_ascii_name_raises:
  "rebuild_zip_central_directory
     [0x50, 0x4B, 0x03, 0x04, 0, 0, 0, 0, 0, 0, 0, 0, 0, 0, 0, 0, 0, 0, 0, 0, 0, 0,
      0, 0, 0, 0, 1, 0, 0, 0, 0x80] = Inl UnicodeEncodeError"
  by (simp add: run_defs)

text \<open>
  C3. Claimed: step 5 of the verifier has no byte-by-byte fallback, so the count is the
  number of headers in the contiguous run starting at offset 0. The counting loop has
  the same \<open>else: offset += 1\<close> branch as the scanner. On the test buffer, which
  passes steps 1 to 3, the run at offset 0 is empty and the loop still counts the
  header that follows the stray byte.
\<close>

theorem C3_count_exceeds_contiguous_run:
  "verify_zip garbage_then_header = Inr (True, Valid 1 31) \<and>
   count_loop garbage_then_header 31 0 0 = Inr 1 \<and>
   contiguous_run garbage_then_header 31 0 0 = Inr 0"
  by (simp add: run_defs garbage_then_header_def)

text \<open>
  C3, as the code has it: in step 5 a 4-byte value that is not the local signature
  advances the offset by one byte and counting goes on; the counted value is at least
  the number of headers in the contiguous run starting at offset 0.
\<close>

theorem C3_count_loop_fallback:
  "(offset < cd_offset \<and> unpack_from 4 data offset = Inr sig \<and> sig \<noteq> 0x04034B50 \<longrightarrow>
      count_loop data cd_offset offset local_count =
        count_loop data cd_offset (offset + 1) local_count) \<and>
   (count_loop data cd_offset 0 0 = Inr n \<longrightarrow>
      (\<exists>m. contiguous_run data cd_offset 0 0 = Inr m \<and> m \<le> n))"
proof
  show "offset < cd_offset \<and> unpack_from 4 data offset = Inr sig \<and> sig \<noteq> 0x04034B50 \<longrightarrow>
      count_loop data cd_offset offset local_count =
        count_loop data cd_offset (offset + 1) local_count"
    by (subst count_loop.simps) simp
  show "count_loop data cd_offset 0 0 = Inr n \<longrightarrow>
      (\<exists>m. contiguous_run data cd_offset 0 0 = Inr m \<and> m \<le> n)"
    by (blast dest: contiguous_run_le_count)
qed

theorem C3_count_loop_fallback_witness:
  "unpack_from 4 garbage_then_header 0 = Inr 55267328 \<and>
   count_loop garbage_then_header 31 0 0 = count_loop garbage_then_header 31 (0 + 1) 0 \<and>
   count_loop garbage_then_header 31 0 0 = Inr 1 \<and>
   (\<exists>m. contiguous_run garbage_then_header 31 0 0 = Inr m \<and> m \<le> 1)"
proof -
  have u: "unpack_from 4 garbage_then_header 0 = Inr 55267328"
    by (simp add: run_defs garbage_then_header_def)
  have c: "count_loop garbage_then_header 31 0 0 = Inr 1"
    by (simp add: run_defs garbage_then_header_def)
  from C3_count_loop_fallback [of 0 31 garbage_then_header 55267328 0 1] u c show ?thesis by simp
qed




text \<open>
  C5. Claimed: \<open>verify\<close> returns a result for every buffer and never raises. On the
  4-byte buffer \<open>PK\x05\x06\<close> the signature is found at offset 0 and the read of
  the central-directory offset at position 16 raises \<open>struct.error\<close>.
\<close>

theorem C5_truncated_eocd_raises:
  "verify_zip [0x50, 0x4B, 0x05, 0x06] = Inl StructError"
  by (simp add: run_defs)

text \<open>
  C6. Claimed: for every buffer, verifying the twice-repaired buffer gives what verifying
  the once-repaired buffer gives. A 31-byte buffer whose header declares a 69-byte
  payload is repaired into 99 bytes that declare the central directory at offset 99,
  past the end: the verifier rejects it. Repairing those 99 bytes appends a second
  central directory exactly at offset 99, and the verifier accepts the result. With 31
  zero bytes no entry is found either time, and the two verdicts differ in the offset
  they report.
\<close>

theorem C6_second_repair_changes_verdict:
  "rebuild_zip_central_directory overlong_entry = Inr (overlong_repaired, 1) \<and>
   verify_zip overlong_repaired = Inr (False, OffsetOutOfBounds 99) \<and>
   rebuild_zip_central_directory overlong_repaired = Inr (overlong_repaired_twice, 1) \<and>
   verify_zip overlong_repaired_twice = Inr (True, Valid 1 99) \<and>
   rebuild_zip_central_directory stray_bytes = Inr (0 # eocd_record 0 0 1, 0) \<and>
   verify_zip (0 # eocd_record 0 0 1) = Inr (False, BadCDSignature 1) \<and>
   rebuild_zip_central_directory (0 # eocd_record 0 0 1) = Inr (eocd_record 0 0 0, 0) \<and>
   verify_zip (eocd_record 0 0 0) = Inr (False, BadCDSignature 0)"
  using rebuild_overlong verify_overlong rebuild_overlong_twice verify_overlong_twice
    rebuild_stray verify_stray rebuild_stray_twice verify_empty_eocd by simp

text \<open>
  C6, as the code has it: when the scan finds at least one entry, ends inside the
  buffer, and repair returns, repairing the output again returns the same bytes and
  the same count, so the verifier's result is the same.
\<close>

theorem C6_repair_idempotent:
  assumes "scan_loop data 0 [] = Inr (entries, local_data_end)"
    and "entries \<noteq> []" and "local_data_end \<le> length data"
    and "rebuild_zip_central_directory data = Inr (out, n)"
  shows "\<exists>out2. rebuild_zip_central_directory out = Inr (out2, n) \<and> out2 = out \<and>
           verify_zip out2 = verify_zip out"
  using rebuild_again [OF assms] by simp

theorem C6_repair_idempotent_witness:
  "\<exists>es out. scan_loop two_entry_archive 0 [] = Inr (es, 78) \<and> es \<noteq> [] \<and>
     78 \<le> length two_entry_archive \<and>
     rebuild_zip_central_directory two_entry_archive = Inr (out, 2) \<and>
     rebuild_zip_central_directory out = Inr (out, 2) \<and>
     verify_zip out = Inr (True, Valid 2 78)"
proof -
  from two_entry_archive_facts(2) obtain es where
    scan: "scan_loop two_entry_archive 0 [] = Inr (es, 78)" and n: "length es = 2"
    and ascii: "\<forall>x \<in> set es. ascii_name x"
    and cd: "length (concat (map cd_record es)) = 102" by blast
  have le: "78 \<le> length two_entry_archive" using two_entry_archive_facts(1) by simp
  have ne: "es \<noteq> []" using n by auto
  define out where "out = take 78 two_entry_archive @ concat (map cd_record es) @
      eocd_record 2 102 78"
  have rb: "rebuild_zip_central_directory two_entry_archive = Inr (out, 2)"
    and vf: "verify_zip out = Inr (True, Valid 2 78)"
    using repair_then_verify [OF scan two_entry_archive_facts(3) le ne ascii]
      rfind_eocd_2_102_78 n cd by (simp_all add: out_def)
  from C6_repair_idempotent [OF scan ne le rb]
  have "rebuild_zip_central_directory out = Inr (out, 2)" by simp
  with scan ne le rb vf show ?thesis by blast
qed

text \<open>
  C7. Claimed: a well-formed local header with no name, no extra field and no payload
  in the final 30 bytes of the buffer is parsed and emitted. The loop guard is
  \<open>offset < len(data) - 30\<close>, strict, so on a buffer that is exactly such a header
  the loop body never runs and no entry is emitted.
\<close>

theorem C7_final_header_dropped:
  "scan_loop
     [0x50, 0x4B, 0x03, 0x04, 0, 0, 0, 0, 0, 0, 0, 0, 0, 0, 0, 0, 0, 0, 0, 0, 0, 0,
      0, 0, 0, 0, 0, 0, 0, 0] 0 [] = Inr ([], 0)"
  by (simp add: run_defs)

text \<open>
  C8. The 78-byte buffer of two minimal local entries \<open>a.txt\<close> (5 payload bytes) and
  \<open>b.txt\<close> (3 payload bytes), whatever the payload bytes and the copied header
  fields are: the rebuilt archive ends with an end record that is the one \<open>rfind\<close>
  locates, it declares 2 entries and the central-directory offset 78, and
  \<open>verify_zip\<close> accepts it.
\<close>

theorem C8_two_entries_repair_verify:
  fixes p1 p2 p3 p4 p5 q1 q2 q3 :: byte
  shows
  "length (minimal_local_entry v1 f1 m1 t1 d1 c1 u1 [0x61, 0x2E, 0x74, 0x78, 0x74]
             [p1, p2, p3, p4, p5] @
           minimal_local_entry v2 f2 m2 t2 d2 c2 u2 [0x62, 0x2E, 0x74, 0x78, 0x74]
             [q1, q2, q3]) = 78 \<and>
   (\<exists>out. rebuild_zip_central_directory
            (minimal_local_entry v1 f1 m1 t1 d1 c1 u1 [0x61, 0x2E, 0x74, 0x78, 0x74]
               [p1, p2, p3, p4, p5] @
             minimal_local_entry v2 f2 m2 t2 d2 c2 u2 [0x62, 0x2E, 0x74, 0x78, 0x74]
               [q1, q2, q3]) = Inr (out, 2) \<and>
          rfind out [0x50, 0x4B, 0x05, 0x06] = Some (length out - 22) \<and>
          unpack_from 2 out (length out - 22 + 10) = Inr 2 \<and>
          unpack_from 4 out (length out - 22 + 16) = Inr 78 \<and>
          verify_zip out = Inr (True, Valid 2 78))"
proof -
  define data where "data =
     minimal_local_entry v1 f1 m1 t1 d1 c1 u1 [0x61, 0x2E, 0x74, 0x78, 0x74]
       [p1, p2, p3, p4, p5] @
     minimal_local_entry v2 f2 m2 t2 d2 c2 u2 [0x62, 0x2E, 0x74, 0x78, 0x74] [q1, q2, q3]"
  note t = two_minimal_entries [OF data_def]
  from t(2) obtain es where scan: "scan_loop data 0 [] = Inr (es, 78)" and n: "length es = 2"
    and ascii: "\<forall>x \<in> set es. ascii_name x"
    and cd: "length (concat (map cd_record es)) = 102" by blast
  define X where "X = take 78 data @ concat (map cd_record es)"
  define out where "out = X @ eocd_record 2 102 78"
  have ne: "es \<noteq> []" using n by auto
  have rv: "rebuild_zip_central_directory data = Inr (out, 2)"
    "verify_zip out = Inr (True, Valid 2 78)"
    using repair_then_verify [OF scan t(3) _ ne ascii] rfind_eocd_2_102_78 n cd t(1)
    by (simp_all add: out_def X_def)
  have lo: "length out - 22 = length X" by (simp add: out_def)
  have "rfind out [0x50, 0x4B, 0x05, 0x06] = Some (length out - 22)"
    "unpack_from 2 out (length out - 22 + 10) = Inr 2"
    "unpack_from 4 out (length out - 22 + 16) = Inr 78"
    unfolding lo unfolding out_def
    using repaired_eocd [OF rfind_eocd_2_102_78, of X] by simp_all
  with rv t(1) show ?thesis unfolding data_def [symmetric] by blast
qed

text \<open>
  C9. Claimed: for every list of scanned entries the builder emits one record per entry,
  with the local header offset as a 4-byte back-reference and the raw filename bytes.
  A local record that starts at offset \<open>2^32\<close> (after that many zero bytes) is scanned
  into an entry whose offset does not fit four bytes: \<open>struct.pack\<close> raises and the
  builder emits nothing. For the entry scanned from the buffer whose name is the byte
  \<open>0xE9\<close> the strict encoding of the decoded name raises.
\<close>

theorem C9_builder_raises_on_wide_offset_or_replaced_name:
  "scan_loop (replicate 4294967296 0 @ tiny_entry) 0 [] =
     Inr ([tiny_entry_dict\<lparr>local_header_offset := 4294967296\<rparr>], 4294967296 + 31) \<and>
   ascii_name (tiny_entry_dict\<lparr>local_header_offset := 4294967296\<rparr>) \<and>
   cd_loop [tiny_entry_dict\<lparr>local_header_offset := 4294967296\<rparr>] [] = Inl StructError \<and>
   scan_loop non_ascii_entry 0 [] = Inr ([non_ascii_entry_dict], 31) \<and>
   cd_loop [non_ascii_entry_dict] [] = Inl UnicodeEncodeError"
proof (intro conjI)
  show "scan_loop (replicate 4294967296 0 @ tiny_entry) 0 [] =
     Inr ([tiny_entry_dict\<lparr>local_header_offset := 4294967296\<rparr>], 4294967296 + 31)"
    by (rule scan_zeros_then_tiny_entry)
  show "ascii_name (tiny_entry_dict\<lparr>local_header_offset := 4294967296\<rparr>)"
    by (rule ascii_tiny_entry_dict)
  show "cd_loop [tiny_entry_dict\<lparr>local_header_offset := 4294967296\<rparr>] [] = Inl StructError"
    by (rule cd_loop_offset_too_wide)
  show "scan_loop non_ascii_entry 0 [] = Inr ([non_ascii_entry_dict], 31)"
    by (rule scan_non_ascii_entry)
  show "cd_loop [non_ascii_entry_dict] [] = Inl UnicodeEncodeError"
    by (simp add: non_ascii_entry_dict_def encode_ascii_def)
qed

text \<open>
  C9, as the code has it: for the entries of a scan whose names are pure ASCII and whose
  local header offsets are below \<open>2^32\<close>, the builder returns, in scan order, one
  record per entry: the 46 fixed bytes of \<open>cd_fixed\<close> (signature, the version twice,
  the copied fields, four zero 16-bit fields, one zero 32-bit field, the local header
  offset) followed by the raw name bytes of the buffer.
\<close>

theorem C9_cd_records_layout:
  assumes "scan_loop data 0 [] = Inr (entries, local_data_end)"
    and "\<forall>e \<in> set entries. ascii_name e \<and> local_header_offset e < 4294967296"
  shows "cd_loop entries [] =
           Inr (concat (map (\<lambda>e. cd_fixed e @
                  slice data (local_header_offset e + 30)
                    (local_header_offset e + 30 + fn_len e)) entries)) \<and>
         (\<forall>e \<in> set entries. length (cd_fixed e) = 46)"
proof -
  from scan_result [OF assms(1)] have em: "\<forall>x \<in> set entries. emitted_from data 0 local_data_end x"
    by simp
  with assms(2) have "\<forall>x \<in> set entries. fits_cd x" by (blast intro: emitted_fits_offset)
  with assms(2) have "cd_loop entries [] = Inr (concat (map cd_record entries))"
    by (simp add: cd_loop_ok)
  moreover have "map cd_record entries =
      map (\<lambda>e. cd_fixed e @ slice data (local_header_offset e + 30)
                    (local_header_offset e + 30 + fn_len e)) entries"
    using em assms(2) by (auto simp: cd_record_def dest: emitted_raw_name)
  ultimately show ?thesis by simp
qed

theorem C9_cd_records_layout_witness:
  "scan_loop stale_archive 0 [] = Inr ([tiny_entry_dict], 31) \<and>
   ascii_name tiny_entry_dict \<and> local_header_offset tiny_entry_dict < 4294967296 \<and>
   cd_loop [tiny_entry_dict] [] =
     Inr [0x50, 0x4B, 0x01, 0x02, 20, 0, 20, 0, 0, 0, 0, 0, 0, 0, 0, 0, 0, 0, 0, 0,
          0, 0, 0, 0, 0, 0, 0, 0, 1, 0, 0, 0, 0, 0, 0, 0, 0, 0, 0, 0, 0, 0,
          0, 0, 0, 0, 0x61]"
proof -
  have a: "ascii_name tiny_entry_dict" and o: "local_header_offset tiny_entry_dict < 4294967296"
    by (simp_all add: ascii_name_def tiny_entry_dict_def)
  then have h: "\<forall>e \<in> set [tiny_entry_dict]. ascii_name e \<and> local_header_offset e < 4294967296"
    by simp
  from C9_cd_records_layout [OF scan_stale_archive h]
  have "cd_loop [tiny_entry_dict] [] =
          Inr (cd_fixed tiny_entry_dict @
               slice stale_archive (local_header_offset tiny_entry_dict + 30)
                 (local_header_offset tiny_entry_dict + 30 + fn_len tiny_entry_dict))"
    by simp
  also have "\<dots> = Inr [0x50, 0x4B, 0x01, 0x02, 20, 0, 20, 0, 0, 0, 0, 0, 0, 0, 0, 0, 0, 0, 0, 0,
          0, 0, 0, 0, 0, 0, 0, 0, 1, 0, 0, 0, 0, 0, 0, 0, 0, 0, 0, 0, 0, 0,
          0, 0, 0, 0, 0x61]"
    by (simp add: cd_fixed_def tiny_entry_dict_def stale_archive_def tiny_entry_bytes slice_def
          le_bytes_2 le_bytes_4)
  finally show ?thesis using scan_stale_archive a o by simp
qed

text \<open>
  C10. Claimed for every buffer. A buffer of 65536 local records, each scanned into an
  entry, has no output: the entry count does not fit the 16-bit fields of the end
  record and \<open>struct.pack\<close> raises. On the buffer whose one name is the byte
  \<open>0xE9\<close> repair has no output either.
\<close>

theorem C10_no_output_beyond_limits_or_on_replaced_name:
  "fully_parsed (concat (replicate 65536 tiny_entry)) 0
     (length (concat (replicate 65536 tiny_entry))) \<and>
   rebuild_zip_central_directory (concat (replicate 65536 tiny_entry)) = Inl StructError \<and>
   scan_loop non_ascii_entry 0 [] = Inr ([non_ascii_entry_dict], 31) \<and>
   name non_ascii_entry_dict = [0xFFFD] \<and>
   rebuild_zip_central_directory non_ascii_entry = Inl UnicodeEncodeError"
proof (intro conjI)
  show "fully_parsed (concat (replicate 65536 tiny_entry)) 0
     (length (concat (replicate 65536 tiny_entry)))"
    by (rule many_tiny_entries(2) [OF refl])
  show "rebuild_zip_central_directory (concat (replicate 65536 tiny_entry)) = Inl StructError"
    by (rule too_many_entries)
  show "scan_loop non_ascii_entry 0 [] = Inr ([non_ascii_entry_dict], 31)"
    by (rule scan_non_ascii_entry)
  show "name non_ascii_entry_dict = [0xFFFD]" by (simp add: non_ascii_entry_dict_def)
  show "rebuild_zip_central_directory non_ascii_entry = Inl UnicodeEncodeError"
    by (rule rebuild_non_ascii_entry)
qed

text \<open>
  C10, as the code has it, for a buffer whose scanned names are pure ASCII. When the
  entry count is at most 65535 and the central-directory size and \<open>local_data_end\<close>
  are below \<open>2^32\<close>, the new content of the file is the first \<open>local_data_end\<close>
  bytes of the input, then the central-directory records, then the 22-byte end record;
  nothing of the input from \<open>local_data_end\<close> on is carried over. When one of these
  limits is exceeded, \<open>struct.pack\<close> raises and nothing is written.
\<close>

theorem C10_repair_output_frame:
  assumes "scan_loop data 0 [] = Inr (entries, local_data_end)"
    and "\<forall>e \<in> set entries. ascii_name e"
  shows "(length entries < 65536 \<and> length (concat (map cd_record entries)) < 4294967296 \<and>
          local_data_end < 4294967296 \<longrightarrow>
            rebuild_zip_central_directory data =
              Inr (take local_data_end data @ concat (map cd_record entries) @
                     eocd_record (length entries) (length (concat (map cd_record entries)))
                       local_data_end,
                   length entries) \<and>
            length (eocd_record (length entries) (length (concat (map cd_record entries)))
                      local_data_end) = 22) \<and>
         (\<not> (length entries < 65536 \<and> length (concat (map cd_record entries)) < 4294967296 \<and>
             local_data_end < 4294967296) \<longrightarrow>
            rebuild_zip_central_directory data = Inl StructError)"
proof (intro conjI impI)
  assume b: "length entries < 65536 \<and> length (concat (map cd_record entries)) < 4294967296 \<and>
          local_data_end < 4294967296"
  with rebuild_ok [OF assms] show "rebuild_zip_central_directory data =
              Inr (take local_data_end data @ concat (map cd_record entries) @
                     eocd_record (length entries) (length (concat (map cd_record entries)))
                       local_data_end,
                   length entries)" by blast
  show "length (eocd_record (length entries) (length (concat (map cd_record entries)))
                      local_data_end) = 22" by simp
next
  assume "\<not> (length entries < 65536 \<and> length (concat (map cd_record entries)) < 4294967296 \<and>
             local_data_end < 4294967296)"
  with assms show "rebuild_zip_central_directory data = Inl StructError"
    by (rule rebuild_limits)
qed

theorem C10_repair_output_frame_witness:
  "scan_loop stale_archive 0 [] = Inr ([tiny_entry_dict], 31) \<and>
   ascii_name tiny_entry_dict \<and> length stale_archive = 62 \<and>
   length [tiny_entry_dict] < 65536 \<and>
   length (concat (map cd_record [tiny_entry_dict])) = 47 \<and>
   rebuild_zip_central_directory stale_archive =
     Inr (take 31 stale_archive @ cd_record tiny_entry_dict @ eocd_record 1 47 31, 1) \<and>
   take 31 stale_archive = tiny_entry \<and>
   length (take 31 stale_archive @ cd_record tiny_entry_dict @ eocd_record 1 47 31) = 100 \<and>
   (\<exists>es. scan_loop (concat (replicate 65536 tiny_entry)) 0 [] =
            Inr (es, length (concat (replicate 65536 tiny_entry))) \<and>
          length es = 65536 \<and> list_all ascii_name es \<and>
          rebuild_zip_central_directory (concat (replicate 65536 tiny_entry)) = Inl StructError)"
proof -
  have a: "ascii_name tiny_entry_dict" by (simp add: ascii_name_def tiny_entry_dict_def)
  then have h: "\<forall>e \<in> set [tiny_entry_dict]. ascii_name e" by simp
  have l: "length (concat (map cd_record [tiny_entry_dict])) = 47"
    by (simp add: cd_record_def tiny_entry_dict_def)
  have t: "take 31 stale_archive = tiny_entry"
    by (simp add: stale_archive_def length_tiny_entry)
  from C10_repair_output_frame [OF scan_stale_archive h] l
  have r: "rebuild_zip_central_directory stale_archive =
     Inr (take 31 stale_archive @ cd_record tiny_entry_dict @ eocd_record 1 47 31, 1)"
    by simp
  have ln: "length (take 31 stale_archive @ cd_record tiny_entry_dict @ eocd_record 1 47 31) = 100"
    using l t by (simp add: length_tiny_entry)
  from many_tiny_entries(3) [OF refl] obtain es where
    s: "scan_loop (concat (replicate 65536 tiny_entry)) 0 [] =
            Inr (es, length (concat (replicate 65536 tiny_entry)))"
    and n: "length es = 65536" and as: "list_all ascii_name es" by blast
  have h2: "\<forall>e \<in> set es. ascii_name e" using as by (simp add: list_all_iff)
  have nb: "\<not> (length es < 65536 \<and> length (concat (map cd_record es)) < 4294967296 \<and>
             length (concat (replicate 65536 tiny_entry)) < 4294967296)"
    unfolding n by simp
  from C10_repair_output_frame [OF s h2] nb
  have "rebuild_zip_central_directory (concat (replicate 65536 tiny_entry)) = Inl StructError"
    by blast
  with s n as have "\<exists>es. scan_loop (concat (replicate 65536 tiny_entry)) 0 [] =
            Inr (es, length (concat (replicate 65536 tiny_entry))) \<and>
          length es = 65536 \<and> list_all ascii_name es \<and>
          rebuild_zip_central_directory (concat (replicate 65536 tiny_entry)) = Inl StructError"
    by blast
  with scan_stale_archive a length_stale_archive l r t ln show ?thesis by simp
qed

end
